theory Spec2Isabelle
  imports Main "HOL-Library.Word" "HOL-Library.Monad_Syntax"
begin

unbundle bit_operations_syntax

section \<open>The open-addressing map of include/engine/containers/map.h\<close>

text \<open>
  The container owns a dense pair store (\<open>_pairs\<close>, a \<open>DynamicArray<Pair>\<close>) and a
  bin table (\<open>_bins\<close>, a raw array of \<open>uint32\<close>) whose slots are either \<open>BIN_EMPTY\<close>
  or an index into the pair store. Two versions of the header are in the repository:
  \<open>include/engine/containers/map.h\<close> (key and value iterators, \<open>void remove\<close>) and a
  sibling copy (one pair iterator, \<open>V remove\<close>). They differ in the probe step of
  \<open>findBinForKey\<close> and in \<open>remove\<close>; everything else is the same text.

  Every function that can hit an \<open>assert\<close>, read outside an array, or loop forever
  returns an \<open>option\<close>: \<open>None\<close> stands for "the call does not return normally".
\<close>

type_synonym uint32 = "32 word"

datatype variant = MapH | Sibling

subsection \<open>Constants\<close>

definition MIN_BINS :: uint32 where
  "MIN_BINS = 32"

definition BIN_EMPTY :: uint32 where
  "BIN_EMPTY = - 1"

definition GROW_THRESHOLD :: uint32 where
  "GROW_THRESHOLD = 70"

definition SHRINK_THRESHOLD :: uint32 where
  "SHRINK_THRESHOLD = 30"

subsection \<open>The pair store\<close>

text \<open>
  Modelled from the spec: \<open>engine/containers/dynamic_array.h\<close> is not among the
  sources. The spec describes the pair store as a dense, insertion-ordered,
  index-addressable sequence whose removal shifts all later entries down by one, so it
  is a list here; an index outside the sequence does not return.
\<close>

definition da_at :: "'a list \<Rightarrow> uint32 \<Rightarrow> 'a option" where
  "da_at xs i = (if unat i < length xs then Some (xs ! unat i) else None)"

definition da_size :: "'a list \<Rightarrow> uint32" where
  "da_size xs = of_nat (length xs)"

definition da_push :: "'a list \<Rightarrow> 'a \<Rightarrow> 'a list" where
  "da_push xs x = xs @ [x]"

definition da_assign :: "'a list \<Rightarrow> uint32 \<Rightarrow> 'a \<Rightarrow> 'a list option" where
  "da_assign xs i x = (if unat i < length xs then Some (xs[unat i := x]) else None)"

definition da_removeAt :: "'a list \<Rightarrow> uint32 \<Rightarrow> ('a list \<times> 'a) option" where
  "da_removeAt xs i =
     (if unat i < length xs
      then Some (take (unat i) xs @ drop (Suc (unat i)) xs, xs ! unat i)
      else None)"

subsection \<open>The map object\<close>

record ('k, 'v) hmap =
  pairs :: "('k \<times> 'v) list"
  hashFunc :: "'k \<Rightarrow> uint32"
  bins :: "uint32 list option"
  binsInUse :: uint32
  binCount :: uint32

text \<open>\<open>_bins\<close> is \<open>None\<close> for the null pointer and \<open>Some bs\<close> for an allocated array.\<close>

definition bin_read :: "('k, 'v) hmap \<Rightarrow> uint32 \<Rightarrow> uint32 option" where
  "bin_read m i =
     (case bins m of
        None \<Rightarrow> None
      | Some bs \<Rightarrow> if unat i < length bs then Some (bs ! unat i) else None)"

definition bin_write :: "('k, 'v) hmap \<Rightarrow> uint32 \<Rightarrow> uint32 \<Rightarrow> ('k, 'v) hmap option" where
  "bin_write m i x =
     (case bins m of
        None \<Rightarrow> None
      | Some bs \<Rightarrow>
          if unat i < length bs then Some (m\<lparr>bins := Some (bs[unat i := x])\<rparr>) else None)"

subsection \<open>Hashing and probing\<close>

definition hash :: "('k, 'v) hmap \<Rightarrow> 'k \<Rightarrow> uint32" where
  "hash m key = hashFunc m key"

definition probe :: "uint32 \<Rightarrow> uint32" where
  "probe probes = probes"

definition wrap :: "('k, 'v) hmap \<Rightarrow> uint32 \<Rightarrow> uint32" where
  "wrap m index = index AND (binCount m - 1)"

text \<open>\<open>isBinEmpty\<close> starts with \<open>assert( binIndex < _binCount )\<close>.\<close>

definition isBinEmpty :: "('k, 'v) hmap \<Rightarrow> uint32 \<Rightarrow> bool option" where
  "isBinEmpty m binIndex =
     (if binIndex < binCount m
      then (case bin_read m binIndex of
              None \<Rightarrow> None
            | Some b \<Rightarrow> Some (b = BIN_EMPTY))
      else None)"

definition doesBinContain :: "('k, 'v) hmap \<Rightarrow> uint32 \<Rightarrow> 'k \<Rightarrow> bool option" where
  "doesBinContain m binIndex key =
     (if binIndex < binCount m
      then (case isBinEmpty m binIndex of
              None \<Rightarrow> None
            | Some True \<Rightarrow> Some False
            | Some False \<Rightarrow>
                (case bin_read m binIndex of
                   None \<Rightarrow> None
                 | Some b \<Rightarrow>
                     (case da_at (pairs m) b of
                        None \<Rightarrow> None
                      | Some p \<Rightarrow> Some (fst p = key))))
      else Some False)"

text \<open>
  The loop condition of \<open>findBinForKey\<close>:
  \<open>!isBinEmpty( i ) && !doesBinContain( i, key )\<close>.
\<close>

definition keepProbing :: "('k, 'v) hmap \<Rightarrow> uint32 \<Rightarrow> 'k \<Rightarrow> bool option" where
  "keepProbing m i key =
     (case isBinEmpty m i of
        None \<Rightarrow> None
      | Some True \<Rightarrow> Some False
      | Some False \<Rightarrow>
          (case doesBinContain m i key of
             None \<Rightarrow> None
           | Some c \<Rightarrow> Some (\<not> c)))"

text \<open>
  The loop's step. \<open>map.h\<close> has \<open>i = probe( ++probes )\<close>; the sibling copy has
  \<open>i = wrap( i + probe( ++probes ) )\<close>. The argument \<open>probes\<close> is the counter after
  its increment.
\<close>

definition nextBin :: "variant \<Rightarrow> ('k, 'v) hmap \<Rightarrow> uint32 \<Rightarrow> uint32 \<Rightarrow> uint32" where
  "nextBin v m i probes =
     (case v of
        MapH \<Rightarrow> probe probes
      | Sibling \<Rightarrow> wrap m (i + probe probes))"

partial_function (option) findBinLoop ::
  "variant \<Rightarrow> ('k, 'v) hmap \<Rightarrow> 'k \<Rightarrow> uint32 \<Rightarrow> uint32 \<Rightarrow> uint32 option" where
  "findBinLoop v m key i probes =
     (case keepProbing m i key of
        None \<Rightarrow> None
      | Some c \<Rightarrow>
          if c then findBinLoop v m key (nextBin v m i (probes + 1)) (probes + 1)
          else Some i)"

declare findBinLoop.simps [code]

definition findBinForKey :: "variant \<Rightarrow> ('k, 'v) hmap \<Rightarrow> 'k \<Rightarrow> uint32 option" where
  "findBinForKey v m key = findBinLoop v m key (wrap m (hash m key)) 0"

subsection \<open>Raw array helpers (memory\_utils.h)\<close>

text \<open>
  \<open>MemoryUtils::set\<close> and \<open>MemoryUtils::copy\<close> are loops over \<open>i < count\<close>; a write or
  read past the end of an array does not return. The counter is a \<open>uint32\<close> below
  \<open>count\<close>, so it never wraps and is a \<open>nat\<close> here.
\<close>

function set_loop :: "'a list \<Rightarrow> 'a \<Rightarrow> nat \<Rightarrow> nat \<Rightarrow> 'a list option" where
  "set_loop ptr x i count =
     (if i < count
      then (if i < length ptr then set_loop (ptr[i := x]) x (Suc i) count else None)
      else Some ptr)"
  by pat_completeness auto
termination
  by (relation "measure (\<lambda>(ptr, x, i, count). count - i)") auto

definition MemoryUtils_set :: "'a list \<Rightarrow> 'a \<Rightarrow> uint32 \<Rightarrow> 'a list option" where
  "MemoryUtils_set ptr x count = set_loop ptr x 0 (unat count)"

function copy_loop :: "'a list \<Rightarrow> 'a list \<Rightarrow> nat \<Rightarrow> nat \<Rightarrow> 'a list option" where
  "copy_loop dst src i count =
     (if i < count
      then (if i < length dst \<and> i < length src
            then copy_loop (dst[i := src ! i]) src (Suc i) count
            else None)
      else Some dst)"
  by pat_completeness auto
termination
  by (relation "measure (\<lambda>(dst, src, i, count). count - i)") auto

definition MemoryUtils_copy :: "'a list \<Rightarrow> 'a list \<Rightarrow> uint32 \<Rightarrow> 'a list option" where
  "MemoryUtils_copy dst src count = copy_loop dst src 0 (unat count)"

text \<open>
  \<open>_binAlloc.get( n )\<close> returns a fresh array of \<open>n\<close> slots. Its contents are not
  initialised; every caller overwrites all of them before reading, so the model fills
  it with zeros.
\<close>

definition binAlloc_get :: "uint32 \<Rightarrow> uint32 list" where
  "binAlloc_get n = replicate (unat n) 0"

text \<open>A null pointer is an array of no slots for the loops above.\<close>

definition bins_mem :: "('k, 'v) hmap \<Rightarrow> uint32 list" where
  "bins_mem m = (case bins m of None \<Rightarrow> [] | Some bs \<Rightarrow> bs)"

definition clearBins :: "('k, 'v) hmap \<Rightarrow> ('k, 'v) hmap option" where
  "clearBins m =
     (case MemoryUtils_set (bins_mem m) BIN_EMPTY (binCount m) of
        None \<Rightarrow> None
      | Some bs \<Rightarrow> Some (m\<lparr>bins := map_option (\<lambda>_. bs) (bins m)\<rparr>))"

subsection \<open>Resize policy\<close>

text \<open>Both tests divide by \<open>_binCount\<close>; a division by zero does not return.\<close>

definition shouldShrink :: "('k, 'v) hmap \<Rightarrow> bool option" where
  "shouldShrink m =
     (if binCount m = 0 then None
      else Some ((binsInUse m * 100) div binCount m \<le> SHRINK_THRESHOLD
                 \<and> binCount m > MIN_BINS))"

definition shouldGrow :: "('k, 'v) hmap \<Rightarrow> bool option" where
  "shouldGrow m =
     (if binCount m = 0 then None
      else Some ((binsInUse m * 100) div binCount m \<ge> GROW_THRESHOLD))"

text \<open>
  The rehash loop of \<open>resize\<close>:
  \<open>for ( i = 0; i < _pairs.size(); ++i ) { pos = findBinForKey( _pairs[i].key ); _bins[pos] = i; }\<close>
\<close>

function rehashLoop :: "variant \<Rightarrow> ('k, 'v) hmap \<Rightarrow> nat \<Rightarrow> ('k, 'v) hmap option" where
  "rehashLoop v m i =
     (if i < length (pairs m)
      then (case findBinForKey v m (fst (pairs m ! i)) of
              None \<Rightarrow> None
            | Some pos \<Rightarrow>
                (case bin_write m pos (of_nat i) of
                   None \<Rightarrow> None
                 | Some m' \<Rightarrow> rehashLoop v m' (Suc i)))
      else Some m)"
  by pat_completeness auto
termination
  by (relation "measure (\<lambda>(v, m, i). length (pairs m) - i)")
     (auto simp: bin_write_def split: option.splits if_splits)

definition resize :: "variant \<Rightarrow> ('k, 'v) hmap \<Rightarrow> uint32 \<Rightarrow> ('k, 'v) hmap option" where
  "resize v m newSize =
     (case bins m of
        None \<Rightarrow> None
      | Some _ \<Rightarrow>
          (case clearBins (m\<lparr>bins := Some (binAlloc_get newSize), binCount := newSize\<rparr>) of
             None \<Rightarrow> None
           | Some m1 \<Rightarrow> rehashLoop v m1 0))"

definition grow :: "variant \<Rightarrow> ('k, 'v) hmap \<Rightarrow> ('k, 'v) hmap option" where
  "grow v m = resize v m (push_bit 1 (binCount m))"

definition shrink :: "variant \<Rightarrow> ('k, 'v) hmap \<Rightarrow> ('k, 'v) hmap option" where
  "shrink v m = resize v m (drop_bit 1 (binCount m))"

subsection \<open>Construction, copy, move, destruction\<close>

text \<open>
  The default hash \<open>util::Hasher<K>::hash\<close> is not among the sources; every constructor
  takes the hash function as a parameter. The allocators do not affect the contents.
\<close>

definition Map_default :: "('k \<Rightarrow> uint32) \<Rightarrow> ('k, 'v) hmap option" where
  "Map_default hf =
     clearBins \<lparr>pairs = [], hashFunc = hf, bins = Some (binAlloc_get MIN_BINS),
                binsInUse = 0, binCount = MIN_BINS\<rparr>"

text \<open>\<open>while ( _binCount < capacity ) { _binCount <<= 1; }\<close>\<close>

partial_function (option) capacityLoop :: "uint32 \<Rightarrow> uint32 \<Rightarrow> uint32 option" where
  "capacityLoop bc capacity =
     (if bc < capacity then capacityLoop (push_bit 1 bc) capacity else Some bc)"

declare capacityLoop.simps [code]

definition Map_capacity :: "uint32 \<Rightarrow> ('k \<Rightarrow> uint32) \<Rightarrow> ('k, 'v) hmap option" where
  "Map_capacity capacity hf =
     (case capacityLoop MIN_BINS capacity of
        None \<Rightarrow> None
      | Some bc \<Rightarrow>
          clearBins \<lparr>pairs = [], hashFunc = hf, bins = Some (binAlloc_get bc),
                     binsInUse = 0, binCount = bc\<rparr>)"

text \<open>Copy constructor and copy assignment: the new object's state.\<close>

definition Map_copy :: "('k, 'v) hmap \<Rightarrow> ('k, 'v) hmap option" where
  "Map_copy src =
     (case MemoryUtils_copy (binAlloc_get (binCount src)) (bins_mem src) (binCount src) of
        None \<Rightarrow> None
      | Some bs \<Rightarrow> Some (src\<lparr>bins := Some bs\<rparr>))"

text \<open>
  Move constructor and move assignment: the pair (new object, source afterwards).

  Modelled from the spec: the move of \<open>DynamicArray\<close> is not among the sources; the
  spec's move property (the moved-from map reports size 0 and is empty) makes the
  moved-from pair store the empty sequence. What the moved-from \<open>std::function\<close>
  holds is unspecified; the model leaves the field as it was.
\<close>

definition Map_move :: "('k, 'v) hmap \<Rightarrow> ('k, 'v) hmap \<times> ('k, 'v) hmap" where
  "Map_move src = (src, src\<lparr>pairs := [], bins := None, binsInUse := 0, binCount := 0\<rparr>)"

text \<open>The destructor releases \<open>_bins\<close> only when it is not null.\<close>

definition destructor_releases :: "('k, 'v) hmap \<Rightarrow> bool" where
  "destructor_releases m = (bins m \<noteq> None)"

subsection \<open>Public operations\<close>

definition size_of :: "('k, 'v) hmap \<Rightarrow> uint32" where
  "size_of m = da_size (pairs m)"

definition isEmpty :: "('k, 'v) hmap \<Rightarrow> bool" where
  "isEmpty m = (pairs m = [])"

definition has :: "variant \<Rightarrow> ('k, 'v) hmap \<Rightarrow> 'k \<Rightarrow> bool option" where
  "has v m key = do {
     binIndex \<leftarrow> findBinForKey v m key;
     e \<leftarrow> isBinEmpty m binIndex;
     Some (\<not> e)
   }"

text \<open>\<open>const V& operator[]( const K& key ) const\<close>, with its \<open>assert\<close>.\<close>

definition index_const :: "variant \<Rightarrow> ('k, 'v) hmap \<Rightarrow> 'k \<Rightarrow> 'v option" where
  "index_const v m key = do {
     binIndex \<leftarrow> findBinForKey v m key;
     e \<leftarrow> isBinEmpty m binIndex;
     if e then None
     else do {
       b \<leftarrow> bin_read m binIndex;
       p \<leftarrow> da_at (pairs m) b;
       Some (snd p)
     }
   }"

text \<open>
  \<open>V& operator[]( const K& key )\<close>: the new state and the value the returned reference
  points at. \<open>dflt\<close> is the default-constructed \<open>V\<close>.
\<close>

definition index_mut :: "variant \<Rightarrow> 'v \<Rightarrow> ('k, 'v) hmap \<Rightarrow> 'k \<Rightarrow> (('k, 'v) hmap \<times> 'v) option" where
  "index_mut v dflt m key = do {
     g \<leftarrow> shouldGrow m;
     m1 \<leftarrow> (if g then grow v m else Some m);
     binIndex \<leftarrow> findBinForKey v m1 key;
     e \<leftarrow> isBinEmpty m1 binIndex;
     m2 \<leftarrow> (if e
             then do {
               m' \<leftarrow> bin_write (m1\<lparr>binsInUse := binsInUse m1 + 1\<rparr>) binIndex (da_size (pairs m1));
               Some (m'\<lparr>pairs := da_push (pairs m') (key, dflt)\<rparr>)
             }
             else Some m1);
     b \<leftarrow> bin_read m2 binIndex;
     p \<leftarrow> da_at (pairs m2) b;
     Some (m2, snd p)
   }"

definition put :: "variant \<Rightarrow> ('k, 'v) hmap \<Rightarrow> 'k \<Rightarrow> 'v \<Rightarrow> ('k, 'v) hmap option" where
  "put v m key val = do {
     binIndex \<leftarrow> findBinForKey v m key;
     e \<leftarrow> isBinEmpty m binIndex;
     if e
     then do {
       m' \<leftarrow> bin_write (m\<lparr>binsInUse := binsInUse m + 1\<rparr>) binIndex (da_size (pairs m));
       Some (m'\<lparr>pairs := da_push (pairs m') (key, val)\<rparr>)
     }
     else do {
       b \<leftarrow> bin_read m binIndex;
       ps \<leftarrow> da_assign (pairs m) b (key, val);
       Some (m\<lparr>pairs := ps\<rparr>)
     }
   }"

text \<open>
  The index correction of \<open>remove\<close>:
  \<open>for ( i = 0; i < _binCount; ++i ) if ( !isBinEmpty( i ) && _bins[i] > _bins[binIndex] ) --( _bins[i] );\<close>
\<close>

function correctBins :: "uint32 list \<Rightarrow> nat \<Rightarrow> nat \<Rightarrow> nat \<Rightarrow> uint32 list option" where
  "correctBins bs binIndex i n =
     (if i < n
      then (if i < length bs \<and> binIndex < length bs
            then correctBins
                   (if bs ! i \<noteq> BIN_EMPTY \<and> bs ! i > bs ! binIndex
                    then bs[i := bs ! i - 1] else bs)
                   binIndex (Suc i) n
            else None)
      else Some bs)"
  by pat_completeness auto
termination
  by (relation "measure (\<lambda>(bs, binIndex, i, n). n - i)") auto

text \<open>
  The statements both versions of \<open>remove\<close> run once the bin is known to be in use:
  \<open>--_binsInUse; _pairs.removeAt( _bins[binIndex] );\<close>, the correction loop and
  \<open>_bins[binIndex] = BIN_EMPTY\<close>. The result is the new state and the removed pair.
\<close>

definition removeEntry ::
  "('k, 'v) hmap \<Rightarrow> uint32 \<Rightarrow> (('k, 'v) hmap \<times> ('k \<times> 'v)) option" where
  "removeEntry m binIndex = do {
     b \<leftarrow> bin_read m binIndex;
     (ps, removed) \<leftarrow> da_removeAt (pairs m) b;
     bs \<leftarrow> correctBins (bins_mem m) (unat binIndex) 0 (unat (binCount m));
     Some (m\<lparr>pairs := ps, bins := Some (bs[unat binIndex := BIN_EMPTY]),
              binsInUse := binsInUse m - 1\<rparr>, removed)
   }"

text \<open>\<open>void remove( const K& key )\<close> of \<open>map.h\<close>.\<close>

definition remove :: "('k, 'v) hmap \<Rightarrow> 'k \<Rightarrow> ('k, 'v) hmap option" where
  "remove m key = do {
     s \<leftarrow> shouldShrink m;
     m1 \<leftarrow> (if s then shrink MapH m else Some m);
     binIndex \<leftarrow> findBinForKey MapH m1 key;
     e \<leftarrow> isBinEmpty m1 binIndex;
     if \<not> e then map_option fst (removeEntry m1 binIndex) else Some m1
   }"

text \<open>\<open>V remove( const K& key )\<close> of the sibling copy, with its \<open>assert\<close>.\<close>

definition remove_value :: "('k, 'v) hmap \<Rightarrow> 'k \<Rightarrow> (('k, 'v) hmap \<times> 'v) option" where
  "remove_value m key = do {
     s \<leftarrow> shouldShrink m;
     m1 \<leftarrow> (if s then shrink Sibling m else Some m);
     binIndex \<leftarrow> findBinForKey Sibling m1 key;
     e \<leftarrow> isBinEmpty m1 binIndex;
     if e then None
     else map_option (\<lambda>(m', removed). (m', snd removed)) (removeEntry m1 binIndex)
   }"

definition clear :: "('k, 'v) hmap \<Rightarrow> ('k, 'v) hmap option" where
  "clear m = do {
     m1 \<leftarrow> clearBins m;
     Some (m1\<lparr>pairs := [], binsInUse := 0\<rparr>)
   }"

section \<open>Vocabulary of the properties\<close>

subsection \<open>A concrete caller\<close>

text \<open>
  The hash function is supplied by the caller (the test suite hashes a string to its
  length). \<open>sample_hash\<close> hashes a natural-number key to itself, and \<open>put_all\<close> is a
  caller that puts the keys of a list one after the other, each with the value
  \<open>10 * key\<close>, and stops at the first call that does not return.
\<close>

definition sample_hash :: "nat \<Rightarrow> uint32" where
  "sample_hash k = of_nat k"

fun put_all :: "variant \<Rightarrow> (nat, nat) hmap \<Rightarrow> nat list \<Rightarrow> (nat, nat) hmap option" where
  "put_all v m [] = Some m"
| "put_all v m (k # ks) = Option.bind (put v m k (10 * k)) (\<lambda>m'. put_all v m' ks)"

definition two_keys :: "variant \<Rightarrow> (nat, nat) hmap" where
  "two_keys v = the (Option.bind (Map_default sample_hash) (\<lambda>m0. put_all v m0 [0, 32]))"


definition full32 :: "variant \<Rightarrow> (nat, nat) hmap" where
  "full32 v = the (Option.bind (Map_default sample_hash) (\<lambda>m0. put_all v m0 [0..<32]))"

definition sparse64 :: "variant \<Rightarrow> (nat, nat) hmap" where
  "sparse64 v = the (Option.bind (Map_capacity 64 sample_hash) (\<lambda>m0. put_all v m0 [0, 64]))"

definition colliding :: "variant \<Rightarrow> (nat, nat) hmap" where
  "colliding v = the (Option.bind (Map_default sample_hash) (\<lambda>m0. put_all v m0 [0, 32, 64]))"

definition offset_keys :: "variant \<Rightarrow> (nat, nat) hmap" where
  "offset_keys v = the (Option.bind (Map_default sample_hash) (\<lambda>m0. put_all v m0 [5, 37]))"

subsection \<open>The bin-table invariant, as the specification words it\<close>

text \<open>
  The number of non-EMPTY slots equals the pair-store size; for every live entry at
  store index \<open>i\<close>, exactly one bin slot contains the value \<open>i\<close>, and that slot is
  reachable from the entry's key via the probe sequence without encountering an EMPTY
  slot first, that is, the lookup of the entry's key ends at that slot.
\<close>

definition binTableInvariant :: "variant \<Rightarrow> ('k, 'v) hmap \<Rightarrow> bool" where
  "binTableInvariant v m =
     (case bins m of
        None \<Rightarrow> False
      | Some bs \<Rightarrow>
          length (filter (\<lambda>b. b \<noteq> BIN_EMPTY) bs) = length (pairs m)
          \<and> list_all
               (\<lambda>i. length (filter (\<lambda>b. b = of_nat i) bs) = 1
                    \<and> (case findBinForKey v m (fst (pairs m ! i)) of
                         None \<Rightarrow> False
                       | Some b \<Rightarrow> bin_read m b = Some (of_nat i)))
               [0..<length (pairs m)])"

subsection \<open>Reachable states\<close>

text \<open>
  The states a program can bring a map into: a constructor, followed by any sequence of
  calls that return. \<open>remove\<close> is the one of the variant. A write through a
  reference that \<open>operator[]\<close> returned changes values in the pair store and no key
  (\<open>r_write\<close>). A moved-from source is not in the set; the target of a move is.
\<close>

inductive reachable :: "variant \<Rightarrow> ('k, 'v) hmap \<Rightarrow> bool" where
  r_default: "Map_default hf = Some m \<Longrightarrow> reachable v m"
| r_capacity: "Map_capacity capacity hf = Some m \<Longrightarrow> reachable v m"
| r_put: "reachable v m \<Longrightarrow> put v m key val = Some m' \<Longrightarrow> reachable v m'"
| r_index: "reachable v m \<Longrightarrow> index_mut v dflt m key = Some (m', x) \<Longrightarrow> reachable v m'"
| r_remove: "reachable MapH m \<Longrightarrow> remove m key = Some m' \<Longrightarrow> reachable MapH m'"
| r_remove_value:
    "reachable Sibling m \<Longrightarrow> remove_value m key = Some (m', x) \<Longrightarrow> reachable Sibling m'"
| r_clear: "reachable v m \<Longrightarrow> clear m = Some m' \<Longrightarrow> reachable v m'"
| r_copy: "reachable v m \<Longrightarrow> Map_copy m = Some m' \<Longrightarrow> reachable v m'"
| r_move: "reachable v m \<Longrightarrow> reachable v (fst (Map_move m))"
| r_write: "reachable v m \<Longrightarrow> map fst ps = map fst (pairs m) \<Longrightarrow> reachable v (m\<lparr>pairs := ps\<rparr>)"

definition capacityOk :: "uint32 \<Rightarrow> bool" where
  "capacityOk c = (\<exists>n. 5 \<le> n \<and> n < 32 \<and> c = 2 ^ n)"

subsection \<open>The probe sequence\<close>

text \<open>
  \<open>probeSeq v m i probes k\<close> is the bin the loop of \<open>findBinForKey\<close> looks at after
  \<open>k\<close> further steps, when it is at bin \<open>i\<close> with the counter at \<open>probes\<close>.
  \<open>triangle k\<close> is \<open>0 + 1 + ... + k\<close>.
\<close>

primrec probeSeq :: "variant \<Rightarrow> ('k, 'v) hmap \<Rightarrow> uint32 \<Rightarrow> uint32 \<Rightarrow> nat \<Rightarrow> uint32" where
  "probeSeq v m i probes 0 = i"
| "probeSeq v m i probes (Suc k) = probeSeq v m (nextBin v m i (probes + 1)) (probes + 1) k"

definition triangle :: "nat \<Rightarrow> nat" where
  "triangle k = k * (k + 1) div 2"

subsection \<open>Well-formed maps\<close>

text \<open>
  \<open>validBins\<close>: the bin pointer is not null, the array has \<open>binCount\<close> slots, and every
  slot is EMPTY or an index into the pair store. \<open>wellFormed\<close> adds that the bin count
  is a power of two from 32 up, that \<open>binsInUse\<close> is the size of the pair store, and
  that the product \<open>binsInUse * 100\<close> of the load tests fits into 32 bits.
\<close>

definition validBins :: "('k, 'v) hmap \<Rightarrow> bool" where
  "validBins m =
     (case bins m of
        None \<Rightarrow> False
      | Some bs \<Rightarrow>
          length bs = unat (binCount m)
          \<and> list_all (\<lambda>b. b = BIN_EMPTY \<or> unat b < length (pairs m)) bs)"

definition wellFormed :: "('k, 'v) hmap \<Rightarrow> bool" where
  "wellFormed m =
     (validBins m \<and> capacityOk (binCount m)
      \<and> unat (binsInUse m) = length (pairs m)
      \<and> length (pairs m) * 100 < 2 ^ 32)"

subsection \<open>Words of the removal claims\<close>

text \<open>
  \<open>shiftIndex r x\<close> is what the correction loop of \<open>remove\<close> makes of a bin holding
  \<open>x\<close> when the entry at store index \<open>r\<close> goes. \<open>remove_of\<close> is the \<open>remove\<close> of a
  variant, as a state change.
\<close>

definition shiftIndex :: "uint32 \<Rightarrow> uint32 \<Rightarrow> uint32" where
  "shiftIndex r x = (if x \<noteq> BIN_EMPTY \<and> r < x then x - 1 else x)"

definition remove_of :: "variant \<Rightarrow> ('k, 'v) hmap \<Rightarrow> 'k \<Rightarrow> ('k, 'v) hmap option" where
  "remove_of v m key =
     (case v of
        MapH \<Rightarrow> remove m key
      | Sibling \<Rightarrow> map_option fst (remove_value m key))"

section \<open>Properties\<close>

declare set_loop.simps [simp del]
declare copy_loop.simps [simp del]
declare rehashLoop.simps [simp del]
declare correctBins.simps [simp del]

subsection \<open>Filling an array\<close>

lemma set_loop_closed:
  "i \<le> n \<Longrightarrow> n \<le> length ptr \<Longrightarrow>
   set_loop ptr x i n = Some (take i ptr @ replicate (n - i) x @ drop n ptr)"
proof (induction "n - i" arbitrary: i ptr)
  case 0
  then show ?case by (subst set_loop.simps) simp
next
  case (Suc d)
  then have lt: "i < n" "i < length ptr" by auto
  have rep: "replicate (n - i) x = x # replicate (n - Suc i) x"
    using lt by (metis Suc_diff_Suc replicate_Suc)
  have "set_loop ptr x i n = set_loop (ptr[i := x]) x (Suc i) n"
    using lt by (subst set_loop.simps) simp
  also have "\<dots> = Some (take (Suc i) (ptr[i := x]) @ replicate (n - Suc i) x @ drop n (ptr[i := x]))"
    using Suc.hyps(1)[of "Suc i" "ptr[i := x]"] Suc.hyps(2) Suc.prems lt by simp
  also have "take (Suc i) (ptr[i := x]) = take i ptr @ [x]"
    using lt by (simp add: take_Suc_conv_app_nth)
  also have "drop n (ptr[i := x]) = drop n ptr"
    using lt by simp
  finally show ?case
    by (simp add: rep)
qed

lemma MemoryUtils_set_all:
  "length ptr = unat count \<Longrightarrow> MemoryUtils_set ptr x count = Some (replicate (unat count) x)"
  by (simp add: MemoryUtils_set_def set_loop_closed)

lemma clearBins_result:
  "length (bins_mem m) = unat (binCount m) \<Longrightarrow>
   clearBins m = Some (m\<lparr>bins := map_option (\<lambda>_. replicate (unat (binCount m)) BIN_EMPTY) (bins m)\<rparr>)"
  by (simp add: clearBins_def MemoryUtils_set_all)

subsection \<open>Arithmetic on 32-bit words\<close>

lemma pow2_unat: "n < 32 \<Longrightarrow> unat ((2::uint32) ^ n) = 2 ^ n"
proof -
  assume n: "n < 32"
  have "(2::nat) ^ n < 2 ^ 32"
    using n by (intro power_strict_increasing) auto
  moreover have "(2::uint32) ^ n = of_nat (2 ^ n)" by simp
  ultimately show ?thesis
    by (simp only: unat_of_nat) simp
qed

lemma pow2_double: "push_bit 1 ((2::uint32) ^ n) = 2 ^ Suc n"
  by (simp add: push_bit_eq_mult)

lemma pow2_halve: "0 < n \<Longrightarrow> n < 32 \<Longrightarrow> drop_bit 1 ((2::uint32) ^ n) = 2 ^ (n - 1)"
proof -
  assume n: "0 < n" "n < 32"
  have "unat (drop_bit 1 ((2::uint32) ^ n)) = unat ((2::uint32) ^ (n - 1))"
    using n by (simp add: unat_drop_bit_eq unat_div pow2_unat drop_bit_eq_div power_diff)
  then show ?thesis by (simp only: word_unat_eq_iff)
qed

lemma grow_bound:
  assumes "(x * 100) div (2::uint32) ^ n \<ge> 70" "n < 32"
  shows "n < 26"
proof (rule ccontr)
  assume "\<not> n < 26"
  then have "26 \<le> n" by simp
  then have "(2::nat) ^ 26 \<le> 2 ^ n" by (intro power_increasing) auto
  moreover have "unat (x * 100) < 2 ^ 32" using unsigned_less[of "x * 100"] by simp
  ultimately have "unat (x * 100) div 2 ^ n < 70"
    by (simp add: less_mult_imp_div_less)
  moreover have "70 \<le> unat ((x * 100) div 2 ^ n)"
    using assms(1) by (simp add: word_le_nat_alt)
  ultimately show False
    using assms(2) by (simp add: unat_div pow2_unat)
qed

lemma pow2_gt_32: "n < 32 \<Longrightarrow> (2::uint32) ^ n > 32 \<Longrightarrow> 5 < n"
proof (rule ccontr)
  assume n: "n < 32" and gt: "(2::uint32) ^ n > 32" and "\<not> 5 < n"
  then have "n \<le> 5" by simp
  then have "(2::nat) ^ n \<le> 2 ^ 5" by (intro power_increasing) auto
  moreover have "32 < unat ((2::uint32) ^ n)" using gt by (simp add: word_less_nat_alt)
  ultimately show False using n by (simp add: pow2_unat)
qed

lemma pow2_ge_32: "5 \<le> n \<Longrightarrow> n < 32 \<Longrightarrow> (32::uint32) \<le> 2 ^ n"
proof -
  assume n: "5 \<le> n" "n < 32"
  have "(2::nat) ^ 5 \<le> 2 ^ n" using n by (intro power_increasing) auto
  then show ?thesis using n by (simp add: word_le_nat_alt pow2_unat)
qed

lemma wrap_unat: "binCount m = 2 ^ n \<Longrightarrow> unat (wrap m x) = unat x mod 2 ^ n"
proof -
  assume "binCount m = 2 ^ n"
  then have "wrap m x = take_bit n x"
    by (simp add: wrap_def flip: mask_eq_decr_exp take_bit_eq_mask)
  then have "unat (wrap m x) = take_bit n (unat x)"
    by (simp add: unsigned_take_bit_eq)
  then show ?thesis by (simp add: take_bit_eq_mod)
qed

lemma wrap_less: "binCount m = 2 ^ n \<Longrightarrow> n < 32 \<Longrightarrow> wrap m x < binCount m"
  by (simp add: word_less_nat_alt wrap_unat pow2_unat)

subsection \<open>Fields an operation leaves alone\<close>

lemma bin_write_fields:
  "bin_write m i x = Some m' \<Longrightarrow>
   pairs m' = pairs m \<and> hashFunc m' = hashFunc m \<and> binsInUse m' = binsInUse m
   \<and> binCount m' = binCount m"
  by (auto simp: bin_write_def split: option.splits if_splits)

lemma clearBins_fields:
  "clearBins m = Some m' \<Longrightarrow>
   pairs m' = pairs m \<and> hashFunc m' = hashFunc m \<and> binsInUse m' = binsInUse m
   \<and> binCount m' = binCount m"
  by (auto simp: clearBins_def split: option.splits)

lemma rehashLoop_fields:
  "rehashLoop v m i = Some m' \<Longrightarrow>
   pairs m' = pairs m \<and> hashFunc m' = hashFunc m \<and> binsInUse m' = binsInUse m
   \<and> binCount m' = binCount m"
proof (induction v m i rule: rehashLoop.induct)
  case (1 v m i)
  show ?case
  proof (cases "i < length (pairs m)")
    case False
    with "1.prems" show ?thesis by (subst (asm) rehashLoop.simps) simp
  next
    case True
    with "1.prems" obtain pos m1 where
      pos: "findBinForKey v m (fst (pairs m ! i)) = Some pos"
      and w: "bin_write m pos (of_nat i) = Some m1"
      and r: "rehashLoop v m1 (Suc i) = Some m'"
      by (subst (asm) rehashLoop.simps) (auto split: option.splits)
    from "1.IH"[OF True pos w r] bin_write_fields[OF w] show ?thesis by simp
  qed
qed

lemma resize_fields:
  "resize v m newSize = Some m' \<Longrightarrow>
   pairs m' = pairs m \<and> hashFunc m' = hashFunc m \<and> binsInUse m' = binsInUse m
   \<and> binCount m' = newSize"
  by (auto simp: resize_def split: option.splits dest!: clearBins_fields rehashLoop_fields)

lemma removeEntry_binCount:
  "removeEntry m b = Some (m', p) \<Longrightarrow> binCount m' = binCount m \<and> hashFunc m' = hashFunc m"
  by (auto simp: removeEntry_def split: Option.bind_splits prod.splits)

lemma put_binCount: "put v m key val = Some m' \<Longrightarrow> binCount m' = binCount m"
  by (auto simp: put_def split: Option.bind_splits if_splits dest!: bin_write_fields)

lemma clear_binCount: "clear m = Some m' \<Longrightarrow> binCount m' = binCount m"
  by (auto simp: clear_def split: Option.bind_splits dest!: clearBins_fields)

lemma copy_binCount: "Map_copy m = Some m' \<Longrightarrow> binCount m' = binCount m"
  by (auto simp: Map_copy_def split: option.splits)

subsection \<open>The probe sequence of findBinForKey\<close>

lemma findBinLoop_Some_seq:
  assumes "findBinLoop v m key i p = Some b"
  shows "\<exists>k. probeSeq v m i p k = b \<and> keepProbing m b key = Some False
             \<and> (\<forall>j<k. keepProbing m (probeSeq v m i p j) key = Some True)"
  using assms
proof (induction rule: findBinLoop.raw_induct[rotated 1, consumes 1])
  case (1 loop v m key i p b)
  show ?case
  proof (cases "keepProbing m i key")
    case None
    with "1.hyps" show ?thesis by simp
  next
    case (Some c)
    show ?thesis
    proof (cases c)
      case False
      with Some "1.hyps" have "b = i" by simp
      with Some False show ?thesis by (intro exI[of _ 0]) simp
    next
      case True
      with Some "1.hyps" have "loop v m key (nextBin v m i (p + 1)) (p + 1) = Some b" by simp
      from "1.IH"[OF this] obtain k where k:
        "probeSeq v m (nextBin v m i (p + 1)) (p + 1) k = b"
        "keepProbing m b key = Some False"
        "\<forall>j<k. keepProbing m (probeSeq v m (nextBin v m i (p + 1)) (p + 1) j) key = Some True"
        by blast
      have "\<forall>j<Suc k. keepProbing m (probeSeq v m i p j) key = Some True"
      proof (intro allI impI)
        fix j assume "j < Suc k"
        then show "keepProbing m (probeSeq v m i p j) key = Some True"
          using k(3) Some True by (cases j) auto
      qed
      with k(1,2) show ?thesis by (intro exI[of _ "Suc k"]) simp
    qed
  qed
qed

lemma findBinLoop_seq_Some:
  assumes "keepProbing m (probeSeq v m i p k) key = Some False"
    and "\<forall>j<k. keepProbing m (probeSeq v m i p j) key = Some True"
  shows "findBinLoop v m key i p = Some (probeSeq v m i p k)"
  using assms
proof (induction k arbitrary: i p)
  case 0
  then show ?case by (subst findBinLoop.simps) simp
next
  case (Suc k)
  from Suc.prems(2) have c: "keepProbing m i key = Some True" by force
  have "findBinLoop v m key (nextBin v m i (p + 1)) (p + 1)
        = Some (probeSeq v m (nextBin v m i (p + 1)) (p + 1) k)"
  proof (rule Suc.IH)
    show "keepProbing m (probeSeq v m (nextBin v m i (p + 1)) (p + 1) k) key = Some False"
      using Suc.prems(1) by simp
    show "\<forall>j<k. keepProbing m (probeSeq v m (nextBin v m i (p + 1)) (p + 1) j) key = Some True"
      using Suc.prems(2) by (metis Suc_less_eq probeSeq.simps(2))
  qed
  with c show ?case by (subst findBinLoop.simps) simp
qed

lemma findBinLoop_iff:
  "findBinLoop v m key i p = Some b \<longleftrightarrow>
   (\<exists>k. probeSeq v m i p k = b \<and> keepProbing m b key = Some False
        \<and> (\<forall>j<k. keepProbing m (probeSeq v m i p j) key = Some True))"
  using findBinLoop_Some_seq findBinLoop_seq_Some by metis

lemma doesBinContain_True_nonempty:
  "doesBinContain m b key = Some True \<Longrightarrow> isBinEmpty m b = Some False"
proof -
  assume a: "doesBinContain m b key = Some True"
  show ?thesis
  proof (cases "isBinEmpty m b")
    case None
    with a show ?thesis by (simp add: doesBinContain_def split: if_splits)
  next
    case (Some e)
    with a show ?thesis by (cases e) (simp_all add: doesBinContain_def split: if_splits)
  qed
qed

lemma keepProbing_False_iff:
  "keepProbing m b key = Some False \<longleftrightarrow>
   isBinEmpty m b = Some True \<or> doesBinContain m b key = Some True"
proof (cases "isBinEmpty m b")
  case None
  then show ?thesis using doesBinContain_True_nonempty[of m b key]
    by (auto simp: keepProbing_def)
next
  case (Some e)
  show ?thesis
  proof (cases e)
    case True
    with Some show ?thesis by (simp add: keepProbing_def)
  next
    case False
    with Some show ?thesis
      by (cases "doesBinContain m b key") (auto simp: keepProbing_def)
  qed
qed

lemma keepProbing_True_iff:
  "keepProbing m b key = Some True \<longleftrightarrow>
   isBinEmpty m b = Some False \<and> doesBinContain m b key = Some False"
proof (cases "isBinEmpty m b")
  case None
  then show ?thesis by (simp add: keepProbing_def)
next
  case (Some e)
  show ?thesis
  proof (cases e)
    case True
    with Some show ?thesis by (simp add: keepProbing_def)
  next
    case False
    with Some show ?thesis
      by (cases "doesBinContain m b key") (auto simp: keepProbing_def)
  qed
qed

lemma wrap_mask: "binCount m = 2 ^ n \<Longrightarrow> wrap m x = x AND mask n"
  by (simp add: wrap_def mask_eq_decr_exp)

lemma wrap_absorb: "binCount m = 2 ^ n \<Longrightarrow> wrap m (wrap m a + b) = wrap m (a + b)"
  by (simp add: wrap_mask mask_eqs)

lemma wrap_idem: "binCount m = 2 ^ n \<Longrightarrow> wrap m (wrap m a) = wrap m a"
  by (simp add: wrap_mask)

lemma triangle_Suc: "triangle (Suc k) = triangle k + Suc k"
proof -
  have "Suc k * (Suc k + 1) = 2 * Suc k + k * (k + 1)" by simp
  then have "Suc k * (Suc k + 1) div 2 = Suc k + k * (k + 1) div 2"
    by simp
  then show ?thesis by (simp add: triangle_def)
qed

lemma probeSeq_Sibling:
  assumes "binCount m = 2 ^ n" "wrap m i = i"
  shows "probeSeq Sibling m i p k = wrap m (i + of_nat k * p + of_nat (triangle k))"
  using assms(2)
proof (induction k arbitrary: i p)
  case 0
  then show ?case by (simp add: triangle_def)
next
  case (Suc k)
  let ?i' = "wrap m (i + (p + 1))"
  have "probeSeq Sibling m i p (Suc k) = probeSeq Sibling m ?i' (p + 1) k"
    by (simp add: nextBin_def probe_def)
  also have "\<dots> = wrap m (?i' + of_nat k * (p + 1) + of_nat (triangle k))"
    by (rule Suc.IH) (simp add: wrap_idem[OF assms(1)])
  also have "\<dots> = wrap m (i + (p + 1) + (of_nat k * (p + 1) + of_nat (triangle k)))"
    using wrap_absorb[OF assms(1), of "i + (p + 1)" "of_nat k * (p + 1) + of_nat (triangle k)"]
    by (simp add: add.assoc)
  also have "i + (p + 1) + (of_nat k * (p + 1) + of_nat (triangle k))
             = i + of_nat (Suc k) * p + of_nat (triangle (Suc k))"
    by (simp add: triangle_Suc algebra_simps)
  finally show ?case .
qed

lemma probeSeq_MapH: "probeSeq MapH m i p k = (if k = 0 then i else p + of_nat k)"
  by (induction k arbitrary: i p) (auto simp: nextBin_def probe_def)

lemma findBinForKey_MapH_probes:
  "findBinForKey MapH m key = Some b \<longleftrightarrow>
   (\<exists>k. (if k = 0 then wrap m (hash m key) else of_nat k) = b
        \<and> keepProbing m b key = Some False
        \<and> (\<forall>j<k. keepProbing m (if j = 0 then wrap m (hash m key) else of_nat j) key
                   = Some True))"
  by (simp only: findBinForKey_def findBinLoop_iff probeSeq_MapH add_0)

lemma probeSeq_Sibling_start:
  assumes "binCount m = 2 ^ n"
  shows "probeSeq Sibling m (wrap m h) 0 k = wrap m (h + of_nat (triangle k))"
  using probeSeq_Sibling[OF assms, of "wrap m h" 0 k]
    wrap_absorb[OF assms, of h "of_nat (triangle k)"]
  by (simp add: wrap_idem[OF assms])

text \<open>
  C1. The claim: the k-th candidate bin of \<open>findBinForKey\<close> is \<open>wrap( hash + k )\<close>. In
  the sibling copy the step is \<open>i = wrap( i + probe( ++probes ) )\<close>, which adds the
  counter to the previous bin: with the keys 0, 32 and 64 in a default map (they sit in
  bins 0, 1 and 3), the lookup of key 96 finds bins 0 and 1 in use by other keys, skips
  bin 2 = \<open>wrap( hash + 2 )\<close>, which is EMPTY, and returns bin 6. In \<open>map.h\<close> the step
  is \<open>i = probe( ++probes )\<close>, the counter alone: with the keys 5 and 37 (both hash to
  bin 5) the lookup of 37 returns bin 1, although \<open>wrap( hash + 1 )\<close> = 6 is EMPTY.
\<close>

theorem linear_probing_counterexample:
  "findBinForKey Sibling (colliding Sibling) 96 = Some 6
   \<and> wrap (colliding Sibling) (hash (colliding Sibling) 96 + 0) = 0
   \<and> keepProbing (colliding Sibling) 0 96 = Some True
   \<and> wrap (colliding Sibling) (hash (colliding Sibling) 96 + 1) = 1
   \<and> keepProbing (colliding Sibling) 1 96 = Some True
   \<and> wrap (colliding Sibling) (hash (colliding Sibling) 96 + 2) = 2
   \<and> isBinEmpty (colliding Sibling) 2 = Some True
   \<and> findBinForKey MapH (offset_keys MapH) 37 = Some 1
   \<and> wrap (offset_keys MapH) (hash (offset_keys MapH) 37 + 0) = 5
   \<and> keepProbing (offset_keys MapH) 5 37 = Some True
   \<and> wrap (offset_keys MapH) (hash (offset_keys MapH) 37 + 1) = 6
   \<and> isBinEmpty (offset_keys MapH) 6 = Some True"
  by code_simp

text \<open>
  C1, amended. In the sibling copy, with a power-of-two bin count, \<open>findBinForKey\<close>
  returns bin \<open>b\<close> exactly when \<open>b\<close> is the first bin of the sequence
  \<open>wrap( hash( key ) + triangle k )\<close>, \<open>k\<close> = 0, 1, 2, ... that is EMPTY or holds the
  key, every earlier bin of the sequence being in use by another key.
\<close>

theorem findBinForKey_probes_triangular:
  assumes "binCount m = 2 ^ n"
  shows "findBinForKey Sibling m key = Some b \<longleftrightarrow>
         (\<exists>k. b = wrap m (hash m key + of_nat (triangle k))
              \<and> (isBinEmpty m b = Some True \<or> doesBinContain m b key = Some True)
              \<and> (\<forall>j<k. isBinEmpty m (wrap m (hash m key + of_nat (triangle j))) = Some False
                       \<and> doesBinContain m (wrap m (hash m key + of_nat (triangle j))) key
                           = Some False))"
proof -
  have "findBinForKey Sibling m key = Some b \<longleftrightarrow>
        (\<exists>k. probeSeq Sibling m (wrap m (hash m key)) 0 k = b
             \<and> keepProbing m b key = Some False
             \<and> (\<forall>j<k. keepProbing m (probeSeq Sibling m (wrap m (hash m key)) 0 j) key
                        = Some True))"
    unfolding findBinForKey_def by (rule findBinLoop_iff)
  also have "\<dots> \<longleftrightarrow>
        (\<exists>k. wrap m (hash m key + of_nat (triangle k)) = b
             \<and> keepProbing m b key = Some False
             \<and> (\<forall>j<k. keepProbing m (wrap m (hash m key + of_nat (triangle j))) key
                        = Some True))"
    by (simp only: probeSeq_Sibling_start[OF assms])
  also have "\<dots> \<longleftrightarrow>
        (\<exists>k. b = wrap m (hash m key + of_nat (triangle k))
              \<and> (isBinEmpty m b = Some True \<or> doesBinContain m b key = Some True)
              \<and> (\<forall>j<k. isBinEmpty m (wrap m (hash m key + of_nat (triangle j))) = Some False
                       \<and> doesBinContain m (wrap m (hash m key + of_nat (triangle j))) key
                           = Some False))"
    by (simp only: keepProbing_False_iff keepProbing_True_iff eq_commute[of _ b])
  finally show ?thesis .
qed

lemma colliding_facts:
  "binCount (colliding Sibling) = 32
   \<and> findBinForKey Sibling (colliding Sibling) 96 = Some 6"
  by code_simp

theorem findBinForKey_probes_triangular_witness:
  "findBinForKey Sibling (colliding Sibling) 96 = Some 6
   \<and> (\<exists>k. (6::uint32) = wrap (colliding Sibling) (hash (colliding Sibling) 96 + of_nat (triangle k))
         \<and> (isBinEmpty (colliding Sibling) 6 = Some True
             \<or> doesBinContain (colliding Sibling) 6 96 = Some True)
         \<and> (\<forall>j<k. isBinEmpty (colliding Sibling)
                     (wrap (colliding Sibling) (hash (colliding Sibling) 96 + of_nat (triangle j)))
                    = Some False
                  \<and> doesBinContain (colliding Sibling)
                     (wrap (colliding Sibling) (hash (colliding Sibling) 96 + of_nat (triangle j))) 96
                    = Some False))"
proof -
  have bc: "binCount (colliding Sibling) = 2 ^ 5" using colliding_facts by simp
  have f: "findBinForKey Sibling (colliding Sibling) 96 = Some 6" using colliding_facts by simp
  from f findBinForKey_probes_triangular[OF bc, of 96 6] show ?thesis by (simp only: simp_thms)
qed

subsection \<open>The bin count is a power of two, at least 32\<close>

lemma capacityOk_grow:
  assumes "capacityOk (binCount m)" "shouldGrow m = Some True"
  shows "capacityOk (push_bit 1 (binCount m))"
proof -
  from assms(1) obtain n where n: "5 \<le> n" "n < 32" "binCount m = 2 ^ n"
    by (auto simp: capacityOk_def)
  from assms(2) n have "70 \<le> (binsInUse m * 100) div 2 ^ n"
    by (auto simp: shouldGrow_def GROW_THRESHOLD_def split: if_splits)
  then have "n < 26" using n(2) by (rule grow_bound)
  then show ?thesis using n unfolding capacityOk_def
    by (intro exI[of _ "Suc n"]) (simp add: pow2_double)
qed

lemma capacityOk_shrink:
  assumes "capacityOk (binCount m)" "shouldShrink m = Some True"
  shows "capacityOk (drop_bit 1 (binCount m))"
proof -
  from assms(1) obtain n where n: "5 \<le> n" "n < 32" "binCount m = 2 ^ n"
    by (auto simp: capacityOk_def)
  from assms(2) n have "(32::uint32) < 2 ^ n"
    by (auto simp: shouldShrink_def MIN_BINS_def split: if_splits)
  then have "5 < n" using n(2) pow2_gt_32 by blast
  moreover from this have "drop_bit 1 ((2::uint32) ^ n) = 2 ^ (n - 1)"
    using n(2) by (intro pow2_halve) auto
  ultimately have "5 \<le> n - 1 \<and> n - 1 < 32 \<and> drop_bit 1 (binCount m) = 2 ^ (n - 1)"
    using n by auto
  then show ?thesis unfolding capacityOk_def by blast
qed

lemma index_mut_capacityOk:
  assumes "index_mut v dflt m key = Some (m', x)" "capacityOk (binCount m)"
  shows "capacityOk (binCount m')"
proof -
  from assms(1) obtain g m1 where g: "shouldGrow m = Some g"
    and m1: "(if g then grow v m else Some m) = Some m1"
    and bc: "binCount m' = binCount m1"
    by (auto simp: index_mut_def split: Option.bind_splits if_splits dest!: bin_write_fields)
  show ?thesis
  proof (cases g)
    case True
    with m1 have "binCount m1 = push_bit 1 (binCount m)"
      by (auto simp: grow_def dest!: resize_fields)
    with capacityOk_grow[OF assms(2)] g True bc show ?thesis by simp
  next
    case False
    with m1 bc assms(2) show ?thesis by simp
  qed
qed

lemma shrink_phase_capacityOk:
  assumes "shouldShrink m = Some s" "(if s then shrink v m else Some m) = Some m1"
    "capacityOk (binCount m)"
  shows "capacityOk (binCount m1)"
proof (cases s)
  case True
  with assms(2) have "binCount m1 = drop_bit 1 (binCount m)"
    by (auto simp: shrink_def dest!: resize_fields)
  with capacityOk_shrink[OF assms(3)] assms(1) True show ?thesis by simp
next
  case False
  with assms show ?thesis by simp
qed

lemma remove_capacityOk:
  assumes "remove m key = Some m'" "capacityOk (binCount m)"
  shows "capacityOk (binCount m')"
proof -
  from assms(1) obtain s m1 where s: "shouldShrink m = Some s"
    and m1: "(if s then shrink MapH m else Some m) = Some m1"
    and bc: "binCount m' = binCount m1"
    by (auto simp: remove_def split: Option.bind_splits if_splits dest!: removeEntry_binCount)
  from shrink_phase_capacityOk[OF s m1 assms(2)] bc show ?thesis by simp
qed

lemma remove_value_capacityOk:
  assumes "remove_value m key = Some (m', x)" "capacityOk (binCount m)"
  shows "capacityOk (binCount m')"
proof -
  from assms(1) obtain s m1 where s: "shouldShrink m = Some s"
    and m1: "(if s then shrink Sibling m else Some m) = Some m1"
    and bc: "binCount m' = binCount m1"
    by (auto simp: remove_value_def split: Option.bind_splits if_splits dest!: removeEntry_binCount)
  from shrink_phase_capacityOk[OF s m1 assms(2)] bc show ?thesis by simp
qed

lemma capacityLoop_result:
  "capacityLoop bc capacity = Some r \<Longrightarrow>
   capacityOk bc \<or> (bc = 0 \<and> 0 < capacity) \<Longrightarrow> capacityOk r"
proof (induction rule: capacityLoop.raw_induct[rotated 1, consumes 1])
  case (1 loop bc capacity r)
  show ?case
  proof (cases "bc < capacity")
    case False
    with 1 show ?thesis by (auto split: if_splits)
  next
    case True
    with "1.hyps" have rec: "loop (push_bit 1 bc) capacity = Some r" by simp
    have "capacityOk (push_bit 1 bc) \<or> (push_bit 1 bc = 0 \<and> 0 < capacity)"
    proof (cases "bc = 0")
      case True
      with "1.prems" \<open>bc < capacity\<close> show ?thesis by auto
    next
      case False
      with "1.prems" obtain n where n: "5 \<le> n" "n < 32" "bc = 2 ^ n"
        by (auto simp: capacityOk_def)
      show ?thesis
      proof (cases "n = 31")
        case True
        with n have "push_bit 1 bc = 0" by (simp add: push_bit_eq_mult)
        moreover have "0 < capacity" using \<open>bc < capacity\<close> by (auto simp: word_greater_zero_iff)
        ultimately show ?thesis by simp
      next
        case False
        with n show ?thesis unfolding capacityOk_def
          by (intro disjI1 exI[of _ "Suc n"]) (simp add: pow2_double)
      qed
    qed
    with "1.IH"[OF rec] show ?thesis .
  qed
qed

lemma Map_default_binCount: "Map_default hf = Some m \<Longrightarrow> binCount m = 32"
  by (auto simp: Map_default_def MIN_BINS_def dest!: clearBins_fields)

lemma Map_capacity_binCount: "Map_capacity capacity hf = Some m \<Longrightarrow> capacityOk (binCount m)"
proof -
  assume a: "Map_capacity capacity hf = Some m"
  then obtain bc where bc: "capacityLoop MIN_BINS capacity = Some bc" and "binCount m = bc"
    by (auto simp: Map_capacity_def split: option.splits dest!: clearBins_fields)
  moreover have "capacityOk MIN_BINS"
    unfolding capacityOk_def MIN_BINS_def by (intro exI[of _ 5]) simp
  ultimately show ?thesis using capacityLoop_result by auto
qed

lemma capacityOk_32: "capacityOk 32"
  unfolding capacityOk_def by (intro exI[of _ 5]) simp

lemma capacityOk_64: "capacityOk 64"
  unfolding capacityOk_def by (intro exI[of _ 6]) simp

lemma capacityLoop_rounds_up:
  assumes "5 \<le> k" "k < 32" "capacity \<le> 2 ^ 31" "k = 5 \<or> (2::uint32) ^ (k - 1) < capacity"
  shows "\<exists>n. k \<le> n \<and> n < 32 \<and> capacityLoop (2 ^ k) capacity = Some (2 ^ n)
             \<and> capacity \<le> 2 ^ n \<and> (n = 5 \<or> (2::uint32) ^ (n - 1) < capacity)"
  using assms
proof (induction "31 - k" arbitrary: k)
  case 0
  then have k: "k = 31" by simp
  with 0 have "\<not> (2::uint32) ^ k < capacity" by (simp add: not_less)
  then have "capacityLoop (2 ^ k) capacity = Some (2 ^ k)"
    by (subst capacityLoop.simps) simp
  with 0 k show ?case by (intro exI[of _ k]) simp
next
  case (Suc d)
  show ?case
  proof (cases "(2::uint32) ^ k < capacity")
    case False
    then have "capacityLoop (2 ^ k) capacity = Some (2 ^ k)"
      by (subst capacityLoop.simps) simp
    with False Suc.prems show ?thesis by (intro exI[of _ k]) (simp add: not_less)
  next
    case True
    have step: "capacityLoop (2 ^ k) capacity = capacityLoop (2 ^ Suc k) capacity"
      using True by (subst capacityLoop.simps) (simp only: pow2_double if_True)
    have "\<exists>n. Suc k \<le> n \<and> n < 32 \<and> capacityLoop (2 ^ Suc k) capacity = Some (2 ^ n)
             \<and> capacity \<le> 2 ^ n \<and> (n = 5 \<or> (2::uint32) ^ (n - 1) < capacity)"
    proof (rule Suc.hyps(1))
      show "d = 31 - Suc k" using Suc.hyps(2) by simp
      show "5 \<le> Suc k" using Suc.prems(1) by simp
      show "Suc k < 32" using Suc.hyps(2) by simp
      show "capacity \<le> 2 ^ 31" by (rule Suc.prems(3))
      show "Suc k = 5 \<or> (2::uint32) ^ (Suc k - 1) < capacity" using True by simp
    qed
    then show ?thesis unfolding step by (metis Suc_leD)
  qed
qed

lemma Map_capacity_rounds_up:
  assumes "capacity \<le> 2 ^ 31"
  shows "\<exists>n m. 5 \<le> n \<and> n < 32 \<and> Map_capacity capacity hf = Some m
           \<and> binCount m = 2 ^ n \<and> capacity \<le> binCount m
           \<and> (n = 5 \<or> (2::uint32) ^ (n - 1) < capacity)
           \<and> pairs m = [] \<and> binsInUse m = 0
           \<and> bins m = Some (replicate (2 ^ n) BIN_EMPTY)"
proof -
  from capacityLoop_rounds_up[of 5 capacity] assms obtain n where
    n: "5 \<le> n" "n < 32" "capacityLoop (2 ^ 5) capacity = Some (2 ^ n)" "capacity \<le> 2 ^ n"
    "n = 5 \<or> (2::uint32) ^ (n - 1) < capacity" by auto
  let ?m0 = "\<lparr>pairs = [], hashFunc = hf, bins = Some (binAlloc_get (2 ^ n)),
              binsInUse = 0, binCount = 2 ^ n\<rparr> :: ('a, 'b) hmap"
  have "clearBins ?m0 = Some (?m0\<lparr>bins := Some (replicate (unat ((2::uint32) ^ n)) BIN_EMPTY)\<rparr>)"
    using clearBins_result[of ?m0] by (simp add: bins_mem_def binAlloc_get_def)
  then have "Map_capacity capacity hf
             = Some (?m0\<lparr>bins := Some (replicate (unat ((2::uint32) ^ n)) BIN_EMPTY)\<rparr>)"
    using n(3) by (simp add: Map_capacity_def MIN_BINS_def)
  then show ?thesis using n pow2_unat[OF n(2)]
    by (intro exI[of _ n]) simp
qed

lemma capacityLoop_stops:
  "capacityLoop bc capacity = Some r \<Longrightarrow> \<not> r < capacity"
proof (induction rule: capacityLoop.raw_induct[rotated 1, consumes 1])
  case (1 loop bc capacity r)
  show ?case
  proof (cases "bc < capacity")
    case True
    with "1.hyps" have "loop (push_bit 1 bc) capacity = Some r" by simp
    then show ?thesis by (rule "1.IH")
  next
    case False
    with "1.hyps" show ?thesis by simp
  qed
qed

lemma Map_capacity_too_large:
  assumes "2 ^ 31 < capacity"
  shows "Map_capacity capacity hf = None"
proof (cases "capacityLoop MIN_BINS capacity")
  case None
  then show ?thesis by (simp add: Map_capacity_def)
next
  case (Some r)
  have "capacityOk MIN_BINS" by (simp add: MIN_BINS_def capacityOk_32)
  with capacityLoop_result[OF Some] have "capacityOk r" by simp
  then obtain n where n: "n < 32" "r = 2 ^ n" by (auto simp: capacityOk_def)
  then have "n \<le> 31" by simp
  then have "(2::nat) ^ n \<le> 2 ^ 31" by (rule power_increasing) simp
  then have "r \<le> 2 ^ 31" using n by (simp add: word_le_nat_alt pow2_unat)
  with assms have "r < capacity" by simp
  with capacityLoop_stops[OF Some] show ?thesis by simp
qed

text \<open>
  C6. In every state reachable from a constructor by calls that return, \<open>binCount\<close> is
  \<open>2 ^ n\<close> with \<open>5 \<le> n < 32\<close>, hence at least \<open>MIN_BINS\<close>. The growth test can only
  be true up to \<open>2 ^ 25\<close> bins (the product \<open>binsInUse * 100\<close> is below \<open>2 ^ 32\<close>), so
  the doubling never wraps to zero; the shrink test demands more than 32 bins. A
  constructor called with a capacity of at most \<open>2 ^ 31\<close> returns with the least such
  power of two that is at least the capacity (\<open>Map_capacity_rounds_up\<close>); with a
  larger capacity the loop of the constructor never ends (\<open>Map_capacity_too_large\<close>).
\<close>

theorem binCount_power_of_two_at_least_32:
  assumes "reachable v m"
  shows "(\<exists>n. 5 \<le> n \<and> n < 32 \<and> binCount m = 2 ^ n) \<and> MIN_BINS \<le> binCount m"
proof -
  have "capacityOk (binCount m)"
    using assms
  proof (induction rule: reachable.induct)
    case (r_default hf m v)
    then have "binCount m = 2 ^ 5" by (simp add: Map_default_binCount)
    then show ?case unfolding capacityOk_def by (intro exI[of _ 5]) simp
  next
    case (r_capacity capacity hf m v)
    then show ?case by (rule Map_capacity_binCount)
  next
    case (r_put v m key val m')
    then show ?case by (simp add: put_binCount)
  next
    case (r_index v m dflt key m' x)
    show ?case using r_index.hyps(2) r_index.IH by (rule index_mut_capacityOk)
  next
    case (r_remove m key m')
    show ?case using r_remove.hyps(2) r_remove.IH by (rule remove_capacityOk)
  next
    case (r_remove_value m key m' x)
    show ?case using r_remove_value.hyps(2) r_remove_value.IH by (rule remove_value_capacityOk)
  next
    case (r_clear v m m')
    then show ?case by (simp add: clear_binCount)
  next
    case (r_copy v m m')
    then show ?case by (simp add: copy_binCount)
  next
    case (r_move v m)
    then show ?case by (simp add: Map_move_def)
  next
    case (r_write v m ps)
    then show ?case by simp
  qed
  then show ?thesis
    by (auto simp: capacityOk_def MIN_BINS_def pow2_ge_32)
qed

lemma two_keys_reachable: "reachable MapH (two_keys MapH)"
proof -
  have "\<not> Option.is_none (Option.bind (Map_default sample_hash) (\<lambda>m0. put_all MapH m0 [0, 32]))"
    by code_simp
  then obtain m where m: "Option.bind (Map_default sample_hash) (\<lambda>m0. put_all MapH m0 [0, 32]) = Some m"
    by (auto simp: Option.is_none_def)
  then obtain m0 m1 where m0: "Map_default sample_hash = Some m0"
    and m1: "put MapH m0 0 (10 * 0) = Some m1"
    and m2: "put MapH m1 32 (10 * 32) = Some m"
    by (auto simp: bind_eq_Some_conv)
  have "reachable MapH m"
    by (rule r_put[OF r_put[OF r_default[OF m0] m1] m2])
  moreover have "two_keys MapH = m" using m by (simp add: two_keys_def)
  ultimately show ?thesis by simp
qed

theorem binCount_power_of_two_at_least_32_witness:
  "(\<exists>n. 5 \<le> n \<and> n < 32 \<and> binCount (two_keys MapH) = 2 ^ n)
   \<and> MIN_BINS \<le> binCount (two_keys MapH)"
  using binCount_power_of_two_at_least_32 [OF two_keys_reachable] .

subsection \<open>Valid bin tables\<close>

lemma validBinsD:
  assumes "validBins m"
  obtains bs where "bins m = Some bs" "length bs = unat (binCount m)"
    "\<And>c. c < length bs \<Longrightarrow> bs ! c \<noteq> BIN_EMPTY \<Longrightarrow> unat (bs ! c) < length (pairs m)"
proof -
  from assms obtain bs where bs: "bins m = Some bs" "length bs = unat (binCount m)"
    "list_all (\<lambda>b. b = BIN_EMPTY \<or> unat b < length (pairs m)) bs"
    by (auto simp: validBins_def split: option.splits)
  have "bs ! c \<noteq> BIN_EMPTY \<Longrightarrow> unat (bs ! c) < length (pairs m)" if "c < length bs" for c
    using bs(3) that by (auto simp: list_all_length)
  with bs(1,2) show ?thesis using that by blast
qed

lemma isBinEmpty_valid:
  assumes "bins m = Some bs" "length bs = unat (binCount m)" "c < binCount m"
  shows "isBinEmpty m c = Some (bs ! unat c = BIN_EMPTY)"
  using assms by (simp add: isBinEmpty_def bin_read_def word_less_nat_alt)

lemma keepProbing_valid:
  assumes "validBins m" "bins m = Some bs" "c < binCount m"
  shows "keepProbing m c key =
         Some (bs ! unat c \<noteq> BIN_EMPTY \<and> fst (pairs m ! unat (bs ! unat c)) \<noteq> key)"
proof -
  from assms(1,2) have len: "length bs = unat (binCount m)"
    and ok: "\<And>c. c < length bs \<Longrightarrow> bs ! c \<noteq> BIN_EMPTY \<Longrightarrow> unat (bs ! c) < length (pairs m)"
    by (auto elim!: validBinsD)
  have c: "unat c < length bs" using assms(3) len by (simp add: word_less_nat_alt)
  have e: "isBinEmpty m c = Some (bs ! unat c = BIN_EMPTY)"
    using assms(2) len assms(3) by (rule isBinEmpty_valid)
  show ?thesis
  proof (cases "bs ! unat c = BIN_EMPTY")
    case True
    with e show ?thesis by (simp add: keepProbing_def)
  next
    case False
    with ok[OF c] have "unat (bs ! unat c) < length (pairs m)" by simp
    with False e assms(2,3) c show ?thesis
      by (simp add: keepProbing_def doesBinContain_def bin_read_def da_at_def)
  qed
qed

lemma keepProbing_Some_in_range:
  "keepProbing m c key = Some x \<Longrightarrow> c < binCount m"
  by (auto simp: keepProbing_def isBinEmpty_def split: option.splits if_splits)

lemma findBinForKey_stops:
  assumes "findBinForKey v m key = Some b"
  shows "keepProbing m b key = Some False" "b < binCount m"
proof -
  from assms show "keepProbing m b key = Some False"
    unfolding findBinForKey_def findBinLoop_iff by blast
  then show "b < binCount m" by (rule keepProbing_Some_in_range)
qed

lemma probeSeq_cong:
  "binCount m' = binCount m \<Longrightarrow> probeSeq v m' i p k = probeSeq v m i p k"
  by (induction k arbitrary: i p) (simp_all add: nextBin_def wrap_def split: variant.splits)

lemma lookup_transfer:
  assumes "findBinForKey v m key = Some b"
    and bc: "binCount m' = binCount m" and h: "hashFunc m' = hashFunc m"
    and stop: "keepProbing m' b key = Some False"
    and pass: "\<And>c. keepProbing m c key = Some True \<Longrightarrow> keepProbing m' c key = Some True"
  shows "findBinForKey v m' key = Some b"
proof -
  from assms(1) obtain k where k: "probeSeq v m (wrap m (hash m key)) 0 k = b"
    "\<forall>j<k. keepProbing m (probeSeq v m (wrap m (hash m key)) 0 j) key = Some True"
    unfolding findBinForKey_def findBinLoop_iff by blast
  have start: "wrap m' (hash m' key) = wrap m (hash m key)"
    using bc h by (simp add: wrap_def hash_def)
  have "findBinLoop v m' key (wrap m' (hash m' key)) 0
        = Some (probeSeq v m' (wrap m' (hash m' key)) 0 k)"
  proof (rule findBinLoop_seq_Some)
    show "keepProbing m' (probeSeq v m' (wrap m' (hash m' key)) 0 k) key = Some False"
      using k(1) stop by (simp add: start probeSeq_cong[OF bc])
    show "\<forall>j<k. keepProbing m' (probeSeq v m' (wrap m' (hash m' key)) 0 j) key = Some True"
      using k(2) pass by (simp add: start probeSeq_cong[OF bc])
  qed
  then show ?thesis using k(1) by (simp add: findBinForKey_def start probeSeq_cong[OF bc])
qed

subsection \<open>The index correction of remove\<close>

lemma shiftIndex_self [simp]: "shiftIndex r r = r"
  by (simp add: shiftIndex_def)

lemma correctBins_closed:
  assumes "binIndex < length bs" "i \<le> length bs"
  shows "correctBins (map (shiftIndex (bs ! binIndex)) (take i bs) @ drop i bs) binIndex i (length bs)
         = Some (map (shiftIndex (bs ! binIndex)) bs)"
  using assms(2)
proof (induction "length bs - i" arbitrary: i)
  case 0
  then show ?case by (subst correctBins.simps) simp
next
  case (Suc d)
  let ?f = "shiftIndex (bs ! binIndex)"
  let ?cur = "map ?f (take i bs) @ drop i bs"
  from Suc have i: "i < length bs" by simp
  have len: "length ?cur = length bs" using i by simp
  have cur_i: "?cur ! i = bs ! i" using i by (simp add: nth_append)
  have cur_b: "?cur ! binIndex = bs ! binIndex"
    using assms(1) i by (cases "binIndex < i") (simp_all add: nth_append)
  have upd: "?cur[i := ?f (bs ! i)] = map ?f (take (Suc i) bs) @ drop (Suc i) bs"
  proof (rule nth_equalityI)
    show "length (?cur[i := ?f (bs ! i)]) = length (map ?f (take (Suc i) bs) @ drop (Suc i) bs)"
      using i by simp
    fix j assume "j < length (?cur[i := ?f (bs ! i)])"
    then have j: "j < length bs" using i by simp
    show "?cur[i := ?f (bs ! i)] ! j = (map ?f (take (Suc i) bs) @ drop (Suc i) bs) ! j"
      using i j by (auto simp: nth_append nth_list_update min_def less_Suc_eq)
  qed
  have step: "(if ?cur ! i \<noteq> BIN_EMPTY \<and> ?cur ! binIndex < ?cur ! i
               then ?cur[i := ?cur ! i - 1] else ?cur) = ?cur[i := ?f (bs ! i)]"
    unfolding cur_i cur_b using i
    by (auto simp: shiftIndex_def list_update_same_conv[THEN iffD2] cur_i len)
  have "correctBins ?cur binIndex i (length bs)
        = correctBins (?cur[i := ?f (bs ! i)]) binIndex (Suc i) (length bs)"
    using i assms(1) len by (subst correctBins.simps) (simp only: step, simp)
  also have "\<dots> = Some (map ?f bs)"
    unfolding upd using Suc.hyps(1)[of "Suc i"] Suc.hyps(2) i by simp
  finally show ?case .
qed

lemma correctBins_all:
  "binIndex < length bs \<Longrightarrow>
   correctBins bs binIndex 0 (length bs) = Some (map (shiftIndex (bs ! binIndex)) bs)"
  using correctBins_closed[of binIndex bs 0] by simp

lemma nth_remove_shift:
  assumes "R < length ps" "j < length ps - 1"
  shows "(take R ps @ drop (Suc R) ps) ! j = (if j < R then ps ! j else ps ! Suc j)"
  using assms by (auto simp: nth_append min_def)

lemma removeEntry_result:
  assumes "bins m = Some bs" "length bs = unat (binCount m)" "b < binCount m"
    and "unat (bs ! unat b) < length (pairs m)"
  shows "removeEntry m b =
         Some (m\<lparr>pairs := take (unat (bs ! unat b)) (pairs m)
                          @ drop (Suc (unat (bs ! unat b))) (pairs m),
                 bins := Some ((map (shiftIndex (bs ! unat b)) bs)[unat b := BIN_EMPTY]),
                 binsInUse := binsInUse m - 1\<rparr>,
               pairs m ! unat (bs ! unat b))"
proof -
  have b: "unat b < length bs" using assms(2,3) by (simp add: word_less_nat_alt)
  have "correctBins bs (unat b) 0 (unat (binCount m)) = Some (map (shiftIndex (bs ! unat b)) bs)"
    using correctBins_all[OF b] assms(2) by simp
  then show ?thesis
    using assms b by (simp add: removeEntry_def bin_read_def da_removeAt_def bins_mem_def)
qed

lemma keepProbing_empty:
  assumes "bins m = Some bs" "length bs = unat (binCount m)" "c < binCount m"
    "bs ! unat c = BIN_EMPTY"
  shows "keepProbing m c key = Some False"
  using assms by (simp add: keepProbing_def isBinEmpty_valid)

lemma keepProbing_in_use:
  assumes "bins m = Some bs" "length bs = unat (binCount m)" "c < binCount m"
    "bs ! unat c \<noteq> BIN_EMPTY" "unat (bs ! unat c) < length (pairs m)"
  shows "keepProbing m c key = Some (fst (pairs m ! unat (bs ! unat c)) \<noteq> key)"
proof -
  have "unat c < length bs" using assms(2,3) by (simp add: word_less_nat_alt)
  then show ?thesis
    using assms by (simp add: keepProbing_def isBinEmpty_valid doesBinContain_def bin_read_def
        da_at_def)
qed

lemma isBinEmpty_SomeD:
  assumes "bins m = Some bs" "isBinEmpty m c = Some e"
  shows "c < binCount m \<and> unat c < length bs \<and> e = (bs ! unat c = BIN_EMPTY)"
  using assms by (auto simp: isBinEmpty_def bin_read_def split: if_splits)

lemma doesBinContain_SomeD:
  assumes "bins m = Some bs" "isBinEmpty m c = Some False" "doesBinContain m c key = Some x"
  shows "unat (bs ! unat c) < length (pairs m)
         \<and> x = (fst (pairs m ! unat (bs ! unat c)) = key)"
proof -
  from isBinEmpty_SomeD[OF assms(1,2)] have c: "c < binCount m" "unat c < length bs" by auto
  with assms show ?thesis
    by (auto simp: doesBinContain_def bin_read_def da_at_def split: if_splits)
qed

lemma keepProbing_True_D:
  assumes "bins m = Some bs" "keepProbing m c key = Some True"
  shows "c < binCount m \<and> unat c < length bs \<and> bs ! unat c \<noteq> BIN_EMPTY
         \<and> unat (bs ! unat c) < length (pairs m)
         \<and> fst (pairs m ! unat (bs ! unat c)) \<noteq> key"
proof -
  from assms(2) have e: "isBinEmpty m c = Some False" and d: "doesBinContain m c key = Some False"
    by (simp_all add: keepProbing_True_iff)
  from isBinEmpty_SomeD[OF assms(1) e] doesBinContain_SomeD[OF assms(1) e d]
  show ?thesis by simp
qed

lemma found_in_use_D:
  assumes "bins m = Some bs" "keepProbing m c key = Some False" "isBinEmpty m c = Some False"
  shows "c < binCount m \<and> unat c < length bs \<and> bs ! unat c \<noteq> BIN_EMPTY
         \<and> unat (bs ! unat c) < length (pairs m)
         \<and> fst (pairs m ! unat (bs ! unat c)) = key"
proof -
  from assms(2,3) have d: "doesBinContain m c key = Some True"
    by (simp add: keepProbing_False_iff)
  from isBinEmpty_SomeD[OF assms(1,3)] doesBinContain_SomeD[OF assms(1,3) d]
  show ?thesis by simp
qed

lemma unat_BIN_EMPTY: "unat BIN_EMPTY = 4294967295"
  by (simp add: BIN_EMPTY_def unsigned_minus_1_eq_mask mask_eq_exp_minus_1)

lemma removeEntry_lookup:
  assumes bs: "bins m = Some bs" and len: "length bs = unat (binCount m)"
    and find: "findBinForKey v m key = Some b"
    and used: "isBinEmpty m b = Some False"
  shows "\<exists>m'. removeEntry m b = Some (m', pairs m ! unat (bs ! unat b))
            \<and> fst (pairs m ! unat (bs ! unat b)) = key
            \<and> unat (bs ! unat b) < length (pairs m)
            \<and> pairs m' = take (unat (bs ! unat b)) (pairs m)
                          @ drop (Suc (unat (bs ! unat b))) (pairs m)
            \<and> bins m' = Some ((map (shiftIndex (bs ! unat b)) bs)[unat b := BIN_EMPTY])
            \<and> binsInUse m' = binsInUse m - 1
            \<and> binCount m' = binCount m \<and> hashFunc m' = hashFunc m
            \<and> findBinForKey v m' key = Some b
            \<and> isBinEmpty m' b = Some True"
proof -
  let ?r = "bs ! unat b"
  let ?R = "unat ?r"
  let ?ps = "pairs m"
  let ?ps' = "take ?R ?ps @ drop (Suc ?R) ?ps"
  let ?bs' = "(map (shiftIndex ?r) bs)[unat b := BIN_EMPTY]"
  let ?m' = "m\<lparr>pairs := ?ps', bins := Some ?bs', binsInUse := binsInUse m - 1\<rparr>"
  from findBinForKey_stops[OF find] have stop: "keepProbing m b key = Some False"
    and b: "b < binCount m" by auto
  from found_in_use_D[OF bs stop used] have ub: "unat b < length bs"
    and r_ne: "?r \<noteq> BIN_EMPTY" and R: "?R < length ?ps" and key: "fst (?ps ! ?R) = key"
    by auto
  have res: "removeEntry m b = Some (?m', ?ps ! ?R)"
    using removeEntry_result[OF bs len b R] .
  have bs': "bins ?m' = Some ?bs'" by simp
  have len': "length ?bs' = unat (binCount ?m')" using len by simp
  have b': "b < binCount ?m'" using b by simp
  have stop': "keepProbing ?m' b key = Some False"
    using bs' len' b' by (rule keepProbing_empty) (simp add: ub)
  have pass: "keepProbing ?m' c key = Some True" if c: "keepProbing m c key = Some True" for c
  proof -
    let ?x = "bs ! unat c"
    let ?X = "unat ?x"
    from keepProbing_True_D[OF bs c] have cb: "c < binCount m" and uc: "unat c < length bs"
      and x_ne: "?x \<noteq> BIN_EMPTY" and X: "?X < length ?ps" and xkey: "fst (?ps ! ?X) \<noteq> key"
      by auto
    have "c \<noteq> b" using c stop by auto
    then have ucb: "unat c \<noteq> unat b" by (simp add: word_unat_eq_iff)
    have XR: "?X \<noteq> ?R" using xkey key by auto
    have nth': "?bs' ! unat c = shiftIndex ?r ?x" using uc ucb by simp
    have main: "shiftIndex ?r ?x \<noteq> BIN_EMPTY \<and> unat (shiftIndex ?r ?x) < length ?ps'
                \<and> ?ps' ! unat (shiftIndex ?r ?x) = ?ps ! ?X"
    proof (cases "?r < ?x")
      case True
      then have RX: "?R < ?X" by (simp add: word_less_nat_alt)
      then have "?x \<noteq> 0" by (auto simp: unat_eq_0)
      then have u: "unat (?x - 1) = ?X - 1" by (simp add: unat_minus_one)
      have sh: "shiftIndex ?r ?x = ?x - 1" using True x_ne by (simp add: shiftIndex_def)
      have "unat (?x - 1) \<noteq> unat BIN_EMPTY"
        using u RX unsigned_less[of ?x, where ?'a = nat] by (simp add: unat_BIN_EMPTY)
      then have ne: "?x - 1 \<noteq> BIN_EMPTY" by auto
      have lt: "?X - 1 < length ?ps - 1" using RX X by simp
      have "\<not> ?X - 1 < ?R" "Suc (?X - 1) = ?X" using RX by auto
      then have "?ps' ! (?X - 1) = ?ps ! ?X"
        using nth_remove_shift[OF R lt] by (simp only: if_False)
      with ne lt R show ?thesis by (simp add: sh u min_def)
    next
      case False
      then have "?X < ?R" using XR by (simp add: word_less_nat_alt)
      moreover have sh: "shiftIndex ?r ?x = ?x" using False by (simp add: shiftIndex_def)
      moreover from \<open>?X < ?R\<close> R have lt: "?X < length ?ps - 1" by simp
      moreover have "?ps' ! ?X = ?ps ! ?X"
        using nth_remove_shift[OF R lt] \<open>?X < ?R\<close> by simp
      ultimately show ?thesis using x_ne R by (simp add: min_def)
    qed
    have "keepProbing ?m' c key = Some (fst (pairs ?m' ! unat (?bs' ! unat c)) \<noteq> key)"
    proof (rule keepProbing_in_use[OF bs' len'])
      show "c < binCount ?m'" using cb by simp
      show "?bs' ! unat c \<noteq> BIN_EMPTY" using main nth' by simp
      show "unat (?bs' ! unat c) < length (pairs ?m')" using main nth' by simp
    qed
    then show ?thesis using main nth' xkey by simp
  qed
  have find': "findBinForKey v ?m' key = Some b"
    by (rule lookup_transfer[OF find _ _ stop' pass]) simp_all
  have empty': "isBinEmpty ?m' b = Some True"
    using isBinEmpty_valid[OF bs' len' b'] ub by simp
  show ?thesis
    using res key R find' empty' by (intro exI[of _ ?m']) simp
qed

subsection \<open>Triangular numbers modulo a power of two\<close>

lemma two_triangle: "2 * triangle k = k * (k + 1)"
  unfolding triangle_def by (simp add: dvd_mult_div_cancel)

lemma triangle_diff:
  "2 * triangle (j + d) = 2 * triangle j + d * (2 * j + d + 1)"
  unfolding two_triangle by (simp add: algebra_simps)

lemma triangle_mono: "triangle j \<le> triangle (j + d)"
  using triangle_diff[of j d] by simp

lemma triangle_inj_mod:
  assumes eq: "(a + triangle j) mod 2 ^ n = (a + triangle (j + d)) mod 2 ^ n"
    and bound: "j + d < 2 ^ n"
  shows "d = 0"
proof (rule ccontr)
  assume d: "d \<noteq> 0"
  have "(a + triangle (j + d)) mod 2 ^ n = (a + triangle j) mod 2 ^ n" using eq by simp
  moreover have "a + triangle j \<le> a + triangle (j + d)" using triangle_mono by simp
  ultimately have "(2::nat) ^ n dvd (a + triangle (j + d)) - (a + triangle j)"
    by (simp add: mod_eq_dvd_iff_nat)
  then have "(2::nat) ^ n dvd triangle (j + d) - triangle j" by simp
  then have "2 * (2::nat) ^ n dvd 2 * (triangle (j + d) - triangle j)"
    by (rule mult_dvd_mono[OF dvd_refl])
  moreover have "2 * (triangle (j + d) - triangle j) = d * (2 * j + d + 1)"
    using triangle_diff[of j d] by (simp add: diff_mult_distrib2)
  ultimately have dv0: "(2::nat) ^ Suc n dvd d * (2 * j + d + 1)" by simp
  define s where "s = 2 * j + d + 1"
  define N where "N = (2::nat) ^ Suc n"
  have dv: "N dvd d * s" using dv0 by (simp only: s_def N_def)
  have parity: "odd s \<longleftrightarrow> even d" by (simp add: s_def)
  have cop: "coprime N x" if "odd x" for x
    unfolding N_def using that by (simp only: coprime_power_left_iff coprime_left_2_iff_odd) simp
  have sN: "s < N" "d < N" using bound d by (simp_all add: s_def N_def)
  have spos: "0 < s" by (simp add: s_def)
  show False
  proof (cases "even d")
    case True
    then have "coprime N s" using parity cop by blast
    then have "N dvd d" using dv coprime_dvd_mult_left_iff by blast
    then have "N \<le> d" using d by (auto dest: dvd_imp_le)
    with sN show False by simp
  next
    case False
    then have "coprime N d" using cop by blast
    then have "N dvd s" using dv coprime_dvd_mult_right_iff by blast
    then have "N \<le> s" using spos by (auto dest: dvd_imp_le)
    with sN show False by simp
  qed
qed

lemma triangle_cover:
  assumes "e < (2::nat) ^ n"
  shows "\<exists>k<2 ^ n. (a + triangle k) mod 2 ^ n = e"
proof -
  let ?f = "\<lambda>k. (a + triangle k) mod 2 ^ n"
  have inj: "inj_on ?f {..<2 ^ n}"
  proof (rule inj_onI)
    fix x y assume x: "x \<in> {..<(2::nat) ^ n}" and y: "y \<in> {..<(2::nat) ^ n}" and eq: "?f x = ?f y"
    show "x = y"
    proof (cases "x \<le> y")
      case True
      then obtain d where "y = x + d" using le_Suc_ex by blast
      with triangle_inj_mod[of a x n d] eq y show ?thesis by simp
    next
      case False
      then obtain d where "x = y + d" using le_Suc_ex by (metis nat_le_linear)
      with triangle_inj_mod[of a y n d] eq x show ?thesis by simp
    qed
  qed
  have "?f ` {..<2 ^ n} \<subseteq> {..<2 ^ n}" by auto
  moreover have "card (?f ` {..<2 ^ n}) = card {..<(2::nat) ^ n}"
    using inj by (rule card_image)
  ultimately have "?f ` {..<2 ^ n} = {..<2 ^ n}"
    by (intro card_subset_eq) auto
  with assms have "e \<in> ?f ` {..<2 ^ n}" by simp
  then show ?thesis by auto
qed

subsection \<open>findBinForKey returns when bins are free\<close>

lemma findBinLoop_terminates:
  assumes valid: "validBins m"
    and stop: "keepProbing m (probeSeq v m i p k0) key = Some False"
    and range: "\<forall>j<k0. probeSeq v m i p j < binCount m"
  shows "\<exists>b. findBinLoop v m key i p = Some b"
proof -
  define k where "k = (LEAST k. keepProbing m (probeSeq v m i p k) key = Some False)"
  have k_stop: "keepProbing m (probeSeq v m i p k) key = Some False"
    unfolding k_def using stop by (rule LeastI)
  have k_le: "k \<le> k0" unfolding k_def using stop by (rule Least_le)
  from valid obtain bs where bs: "bins m = Some bs" by (auto elim: validBinsD)
  have "\<forall>j<k. keepProbing m (probeSeq v m i p j) key = Some True"
  proof (intro allI impI)
    fix j assume j: "j < k"
    then have "probeSeq v m i p j < binCount m" using range k_le by simp
    from keepProbing_valid[OF valid bs this, of key]
    obtain x where x: "keepProbing m (probeSeq v m i p j) key = Some x" by blast
    have "keepProbing m (probeSeq v m i p j) key \<noteq> Some False"
      using not_less_Least[of j "\<lambda>k. keepProbing m (probeSeq v m i p k) key = Some False"] j
      unfolding k_def by blast
    with x show "keepProbing m (probeSeq v m i p j) key = Some True" by (cases x) auto
  qed
  with k_stop have "findBinLoop v m key i p = Some (probeSeq v m i p k)"
    by (rule findBinLoop_seq_Some)
  then show ?thesis by blast
qed

lemma unat_of_nat_bin:
  assumes "e < unat (c::uint32)"
  shows "unat (of_nat e :: uint32) = e"
proof -
  have "e < 2 ^ 32" using assms unsigned_less[of c, where ?'a = nat] by simp
  then show ?thesis by (simp add: unat_of_nat)
qed

lemma findBinForKey_MapH_terminates:
  assumes valid: "validBins m" and cap: "capacityOk (binCount m)"
    and bs: "bins m = Some bs" and e: "0 < e" "e < length bs" "bs ! e = BIN_EMPTY"
  shows "\<exists>b. findBinForKey MapH m key = Some b"
proof -
  from valid bs have len: "length bs = unat (binCount m)" by (auto elim: validBinsD)
  from cap obtain n where n: "n < 32" "binCount m = 2 ^ n" by (auto simp: capacityOk_def)
  have in_range: "(of_nat j :: uint32) < binCount m" if "j \<le> e" for j
  proof -
    have "j < unat (binCount m)" using that e(2) len by simp
    then show ?thesis using unat_of_nat_bin[of j "binCount m"] by (simp add: word_less_nat_alt)
  qed
  have ue: "unat (of_nat e :: uint32) = e" using e(2) len by (simp add: unat_of_nat_bin)
  have "\<exists>b. findBinLoop MapH m key (wrap m (hash m key)) 0 = Some b"
  proof (rule findBinLoop_terminates[OF valid, where ?k0.0 = e])
    show "keepProbing m (probeSeq MapH m (wrap m (hash m key)) 0 e) key = Some False"
      using e(1) keepProbing_empty[OF bs len in_range[of e], of key] ue e(3)
      by (simp add: probeSeq_MapH)
    show "\<forall>j<e. probeSeq MapH m (wrap m (hash m key)) 0 j < binCount m"
      using in_range wrap_less[OF n(2) n(1)] by (simp add: probeSeq_MapH)
  qed
  then show ?thesis by (simp add: findBinForKey_def)
qed

lemma findBinForKey_Sibling_terminates:
  assumes valid: "validBins m" and cap: "capacityOk (binCount m)"
    and bs: "bins m = Some bs" and e: "e < length bs" "bs ! e = BIN_EMPTY"
  shows "\<exists>b. findBinForKey Sibling m key = Some b"
proof -
  from valid bs have len: "length bs = unat (binCount m)" by (auto elim: validBinsD)
  from cap obtain n where n: "n < 32" "binCount m = 2 ^ n" by (auto simp: capacityOk_def)
  have N: "unat (binCount m) = 2 ^ n" using n by (simp add: pow2_unat)
  let ?h = "hash m key"
  have seq: "probeSeq Sibling m (wrap m ?h) 0 k = wrap m (?h + of_nat (triangle k))" for k
    by (rule probeSeq_Sibling_start[OF n(2)])
  have useq: "unat (wrap m (?h + of_nat (triangle k))) = (unat ?h + triangle k) mod 2 ^ n" for k
  proof -
    have dv: "(2::nat) ^ n dvd 2 ^ 32" by (rule le_imp_power_dvd) (use n(1) in simp)
    have "unat (?h + of_nat (triangle k)) = (unat ?h + triangle k) mod 2 ^ 32"
      by (simp add: unat_word_ariths unat_of_nat mod_add_right_eq)
    then have "unat (wrap m (?h + of_nat (triangle k))) = (unat ?h + triangle k) mod 2 ^ 32 mod 2 ^ n"
      by (simp add: wrap_unat[OF n(2)])
    then show ?thesis using dv by (simp add: mod_mod_cancel)
  qed
  from e(1) len N have "e < 2 ^ n" by simp
  from triangle_cover[OF this, of "unat ?h"] obtain k0 where
    k0: "(unat ?h + triangle k0) mod 2 ^ n = e" by blast
  have "\<exists>b. findBinLoop Sibling m key (wrap m ?h) 0 = Some b"
  proof (rule findBinLoop_terminates[OF valid, where ?k0.0 = k0])
    show "keepProbing m (probeSeq Sibling m (wrap m ?h) 0 k0) key = Some False"
      unfolding seq
      using keepProbing_empty[OF bs len wrap_less[OF n(2) n(1)], of "?h + of_nat (triangle k0)" key]
        useq[of k0] k0 e(2) by simp
    show "\<forall>j<k0. probeSeq Sibling m (wrap m ?h) 0 j < binCount m"
      unfolding seq using wrap_less[OF n(2) n(1)] by simp
  qed
  then show ?thesis by (simp add: findBinForKey_def)
qed

lemma two_empty_bins:
  assumes "2 \<le> length (filter (\<lambda>b. b = BIN_EMPTY) bs)"
  shows "\<exists>e. 0 < e \<and> e < length bs \<and> bs ! e = BIN_EMPTY"
proof (cases bs)
  case Nil
  with assms show ?thesis by simp
next
  case (Cons x xs)
  with assms have "1 \<le> length (filter (\<lambda>b. b = BIN_EMPTY) xs)"
    by (simp split: if_splits)
  then have "filter (\<lambda>b. b = BIN_EMPTY) xs \<noteq> []" by auto
  then obtain y where "y \<in> set xs" "y = BIN_EMPTY"
    by (metis (mono_tags, lifting) filter_False)
  then obtain i where "i < length xs" "xs ! i = BIN_EMPTY" by (auto simp: in_set_conv_nth)
  with Cons show ?thesis by (intro exI[of _ "Suc i"]) simp
qed

lemma findBinForKey_terminates:
  assumes "validBins m" "capacityOk (binCount m)" "bins m = Some bs"
    "2 \<le> length (filter (\<lambda>b. b = BIN_EMPTY) bs)"
  shows "\<exists>b. findBinForKey v m key = Some b"
proof -
  from two_empty_bins[OF assms(4)] obtain e where
    e: "0 < e" "e < length bs" "bs ! e = BIN_EMPTY" by blast
  show ?thesis
  proof (cases v)
    case MapH
    with findBinForKey_MapH_terminates[OF assms(1,2,3) e] show ?thesis by simp
  next
    case Sibling
    with findBinForKey_Sibling_terminates[OF assms(1,2,3) e(2,3)] show ?thesis by simp
  qed
qed

subsection \<open>Rehashing\<close>

lemma has_True_iff:
  "has v m key = Some True \<longleftrightarrow>
   (\<exists>b. findBinForKey v m key = Some b \<and> isBinEmpty m b = Some False)"
  by (auto simp: has_def bind_eq_Some_conv)

lemma has_False_iff:
  "has v m key = Some False \<longleftrightarrow>
   (\<exists>b. findBinForKey v m key = Some b \<and> isBinEmpty m b = Some True)"
  by (auto simp: has_def bind_eq_Some_conv)

lemma validBinsI:
  assumes "bins m = Some bs" "length bs = unat (binCount m)"
    "\<And>b. b \<in> set bs \<Longrightarrow> b \<noteq> BIN_EMPTY \<Longrightarrow> unat b < length (pairs m)"
  shows "validBins m"
  using assms by (auto simp: validBins_def list_all_iff)

lemma validBins_set:
  assumes "validBins m" "bins m = Some bs" "b \<in> set bs" "b \<noteq> BIN_EMPTY"
  shows "unat b < length (pairs m)"
  using assms by (auto simp: validBins_def list_all_iff)

lemma has_after_bin_write:
  assumes valid: "validBins m" and bs: "bins m = Some bs"
    and pos: "findBinForKey v m key = Some pos"
    and x: "unat x < length (pairs m)" "x \<noteq> BIN_EMPTY" "fst (pairs m ! unat x) = key"
  shows "validBins (m\<lparr>bins := Some (bs[unat pos := x])\<rparr>)"
    and "has v (m\<lparr>bins := Some (bs[unat pos := x])\<rparr>) key = Some True"
    and "\<And>k'. has v m k' = Some True \<Longrightarrow> has v (m\<lparr>bins := Some (bs[unat pos := x])\<rparr>) k' = Some True"
proof -
  let ?bs1 = "bs[unat pos := x]"
  let ?m1 = "m\<lparr>bins := Some ?bs1\<rparr>"
  from valid bs have len: "length bs = unat (binCount m)" by (auto elim: validBinsD)
  from findBinForKey_stops[OF pos] have pstop: "keepProbing m pos key = Some False"
    and prange: "pos < binCount m" by auto
  have upos: "unat pos < length bs" using prange len by (simp add: word_less_nat_alt)
  show v1: "validBins ?m1"
  proof (rule validBinsI)
    show "bins ?m1 = Some ?bs1" by simp
    show "length ?bs1 = unat (binCount ?m1)" using len by simp
    fix b assume "b \<in> set ?bs1" "b \<noteq> BIN_EMPTY"
    then have "b = x \<or> b \<in> set bs" using set_update_subset_insert[of bs "unat pos" x] by auto
    then show "unat b < length (pairs ?m1)"
      using x(1) validBins_set[OF valid bs] \<open>b \<noteq> BIN_EMPTY\<close> by auto
  qed
  have bs1: "bins ?m1 = Some ?bs1" by simp
  have kp_pos: "keepProbing ?m1 pos k = Some (key \<noteq> k)" for k
    using keepProbing_valid[OF v1 bs1, of pos k] prange upos x by simp
  have kp_other: "keepProbing ?m1 c k = keepProbing m c k" if "c < binCount m" "c \<noteq> pos" for c k
  proof -
    have "unat c \<noteq> unat pos" using that(2) by (simp add: word_unat_eq_iff)
    then show ?thesis
      using keepProbing_valid[OF v1 bs1, of c k] keepProbing_valid[OF valid bs, of c k] that(1)
      by simp
  qed
  have e_pos: "isBinEmpty ?m1 pos = Some False"
    using isBinEmpty_valid[OF bs1, of pos] len prange upos x(2) by simp
  have e_other: "isBinEmpty ?m1 c = isBinEmpty m c" if "c < binCount m" "c \<noteq> pos" for c
  proof -
    have "unat c \<noteq> unat pos" using that(2) by (simp add: word_unat_eq_iff)
    then show ?thesis
      using isBinEmpty_valid[OF bs1, of c] isBinEmpty_valid[OF bs len, of c] len that(1) by simp
  qed
  have "findBinForKey v ?m1 key = Some pos"
  proof (rule lookup_transfer[OF pos])
    show "keepProbing ?m1 pos key = Some False" by (simp add: kp_pos)
    fix c assume c: "keepProbing m c key = Some True"
    then have "c \<noteq> pos" using pstop by auto
    with c keepProbing_Some_in_range[OF c] show "keepProbing ?m1 c key = Some True"
      by (simp add: kp_other)
  qed simp_all
  with e_pos show hk: "has v ?m1 key = Some True" by (auto simp: has_True_iff)
  fix k' assume h: "has v m k' = Some True"
  show "has v ?m1 k' = Some True"
  proof (cases "k' = key")
    case True
    with hk show ?thesis by simp
  next
    case False
    from h obtain b' where b': "findBinForKey v m k' = Some b'" "isBinEmpty m b' = Some False"
      by (auto simp: has_True_iff)
    from findBinForKey_stops[OF b'(1)] have bstop: "keepProbing m b' k' = Some False"
      and brange: "b' < binCount m" by auto
    from found_in_use_D[OF bs bstop b'(2)] have bkey: "bs ! unat b' \<noteq> BIN_EMPTY"
      "fst (pairs m ! unat (bs ! unat b')) = k'" by auto
    have "b' \<noteq> pos"
    proof
      assume "b' = pos"
      with keepProbing_valid[OF valid bs prange, of key] pstop bkey False show False by auto
    qed
    have "findBinForKey v ?m1 k' = Some b'"
    proof (rule lookup_transfer[OF b'(1)])
      show "keepProbing ?m1 b' k' = Some False"
        using kp_other[OF brange \<open>b' \<noteq> pos\<close>] bstop by simp
      fix c assume c: "keepProbing m c k' = Some True"
      show "keepProbing ?m1 c k' = Some True"
      proof (cases "c = pos")
        case True
        then show ?thesis using False by (simp add: kp_pos)
      next
        case False
        with c keepProbing_Some_in_range[OF c] show ?thesis by (simp add: kp_other)
      qed
    qed simp_all
    moreover have "isBinEmpty ?m1 b' = Some False"
      using e_other[OF brange \<open>b' \<noteq> pos\<close>] b'(2) by simp
    ultimately show ?thesis by (auto simp: has_True_iff)
  qed
qed

lemma filter_update_le:
  "length (filter P (xs[k := y])) \<le> Suc (length (filter P xs))"
proof (induction xs arbitrary: k)
  case Nil
  then show ?case by simp
next
  case (Cons x xs)
  show ?case
  proof (cases k)
    case 0
    then show ?thesis by simp
  next
    case (Suc k')
    with Cons.IH[of k'] show ?thesis by simp
  qed
qed

lemma empty_count:
  "length (filter (\<lambda>b. b = BIN_EMPTY) bs) + length (filter (\<lambda>b. b \<noteq> BIN_EMPTY) bs) = length bs"
  using sum_length_filter_compl[of "\<lambda>b. b = BIN_EMPTY" bs] by simp

lemma rehashLoop_correct:
  assumes cap: "capacityOk (binCount m)" and valid: "validBins m" and bs: "bins m = Some bs"
    and i: "i \<le> length (pairs m)" and room: "length (pairs m) < unat (binCount m)"
    and cnt: "length (filter (\<lambda>b. b \<noteq> BIN_EMPTY) bs) \<le> i"
    and found: "\<forall>j<i. has v m (fst (pairs m ! j)) = Some True"
  shows "\<exists>m'. rehashLoop v m i = Some m' \<and> validBins m'
           \<and> length (filter (\<lambda>b. b \<noteq> BIN_EMPTY) (bins_mem m')) \<le> length (pairs m)
           \<and> (\<forall>j<length (pairs m). has v m' (fst (pairs m ! j)) = Some True)"
  using assms
proof (induction "length (pairs m) - i" arbitrary: m bs i)
  case 0
  then have "i = length (pairs m)" by simp
  with 0 show ?case
    by (subst rehashLoop.simps) (simp add: bins_mem_def)
next
  case (Suc d)
  let ?ps = "pairs m"
  let ?key = "fst (?ps ! i)"
  from Suc.hyps(2) have i: "i < length ?ps" by simp
  from Suc.prems(2,3) have len: "length bs = unat (binCount m)" by (auto elim: validBinsD)
  have "2 \<le> length (filter (\<lambda>b. b = BIN_EMPTY) bs)"
    using empty_count[of bs] Suc.prems(6) i Suc.prems(5) len by simp
  from findBinForKey_terminates[OF Suc.prems(2) Suc.prems(1) Suc.prems(3) this, of v ?key]
  obtain pos where pos: "findBinForKey v m ?key = Some pos" by blast
  from findBinForKey_stops[OF pos] have prange: "pos < binCount m" by simp
  then have upos: "unat pos < length bs" using len by (simp add: word_less_nat_alt)
  let ?x = "of_nat i :: uint32"
  let ?bs1 = "bs[unat pos := ?x]"
  let ?m1 = "m\<lparr>bins := Some ?bs1\<rparr>"
  have ux: "unat ?x = i" using i Suc.prems(5) by (intro unat_of_nat_bin[of i "binCount m"]) simp
  have x_ne: "?x \<noteq> BIN_EMPTY"
  proof
    assume "?x = BIN_EMPTY"
    then have "unat ?x = unat BIN_EMPTY" by simp
    with ux have "i = 4294967295" by (simp add: unat_BIN_EMPTY)
    moreover have "i < 4294967295"
      using i Suc.prems(5) unsigned_less[of "binCount m", where ?'a = nat] by simp
    ultimately show False by simp
  qed
  have w: "bin_write m pos ?x = Some ?m1"
    using Suc.prems(3) upos by (simp add: bin_write_def)
  have x1: "unat ?x < length ?ps" using ux i by simp
  have x3: "fst (?ps ! unat ?x) = ?key" using ux by simp
  note after = has_after_bin_write[OF Suc.prems(2) Suc.prems(3) pos x1 x_ne x3]
  have step: "rehashLoop v m i = rehashLoop v ?m1 (Suc i)"
    using i pos w by (subst rehashLoop.simps) simp
  have "\<exists>m'. rehashLoop v ?m1 (Suc i) = Some m' \<and> validBins m'
           \<and> length (filter (\<lambda>b. b \<noteq> BIN_EMPTY) (bins_mem m')) \<le> length (pairs ?m1)
           \<and> (\<forall>j<length (pairs ?m1). has v m' (fst (pairs ?m1 ! j)) = Some True)"
  proof (rule Suc.hyps(1))
    show "d = length (pairs ?m1) - Suc i" using Suc.hyps(2) by simp
    show "capacityOk (binCount ?m1)" using Suc.prems(1) by simp
    show "validBins ?m1" by (rule after(1))
    show "bins ?m1 = Some ?bs1" by simp
    show "Suc i \<le> length (pairs ?m1)" using i by simp
    show "length (pairs ?m1) < unat (binCount ?m1)" using Suc.prems(5) by simp
    show "length (filter (\<lambda>b. b \<noteq> BIN_EMPTY) ?bs1) \<le> Suc i"
      using filter_update_le[of "\<lambda>b. b \<noteq> BIN_EMPTY" bs "unat pos" ?x] Suc.prems(6) by simp
    show "\<forall>j<Suc i. has v ?m1 (fst (pairs ?m1 ! j)) = Some True"
    proof (intro allI impI)
      fix j assume "j < Suc i"
      then consider "j = i" | "j < i" by linarith
      then show "has v ?m1 (fst (pairs ?m1 ! j)) = Some True"
      proof cases
        case 1
        then show ?thesis using after(2) by simp
      next
        case 2
        with Suc.prems(7) have "has v m (fst (?ps ! j)) = Some True" by simp
        from after(3)[OF this] show ?thesis by simp
      qed
    qed
  qed
  then show ?case unfolding step by simp
qed

lemma resize_correct:
  assumes "bins m \<noteq> None" "capacityOk newSize" "length (pairs m) < unat newSize"
  shows "\<exists>m'. resize v m newSize = Some m' \<and> validBins m'
           \<and> binCount m' = newSize \<and> pairs m' = pairs m
           \<and> binsInUse m' = binsInUse m \<and> hashFunc m' = hashFunc m
           \<and> length (filter (\<lambda>b. b \<noteq> BIN_EMPTY) (bins_mem m')) \<le> length (pairs m)
           \<and> (\<forall>j<length (pairs m). has v m' (fst (pairs m ! j)) = Some True)"
proof -
  let ?bs0 = "replicate (unat newSize) BIN_EMPTY"
  let ?ma = "m\<lparr>bins := Some (binAlloc_get newSize), binCount := newSize\<rparr>"
  let ?m0 = "?ma\<lparr>bins := Some ?bs0\<rparr>"
  have clr: "clearBins ?ma = Some ?m0"
    using clearBins_result[of ?ma] by (simp add: bins_mem_def binAlloc_get_def)
  have rs: "resize v m newSize = rehashLoop v ?m0 0"
    using assms(1) clr by (auto simp: resize_def)
  have "\<exists>m'. rehashLoop v ?m0 0 = Some m' \<and> validBins m'
           \<and> length (filter (\<lambda>b. b \<noteq> BIN_EMPTY) (bins_mem m')) \<le> length (pairs ?m0)
           \<and> (\<forall>j<length (pairs ?m0). has v m' (fst (pairs ?m0 ! j)) = Some True)"
  proof (rule rehashLoop_correct)
    show "capacityOk (binCount ?m0)" using assms(2) by simp
    show "validBins ?m0" by (rule validBinsI[where bs = ?bs0]) simp_all
    show "bins ?m0 = Some ?bs0" by simp
    show "length (pairs ?m0) < unat (binCount ?m0)" using assms(3) by simp
    show "length (filter (\<lambda>b. b \<noteq> BIN_EMPTY) ?bs0) \<le> 0" by simp
  qed simp_all
  then obtain m' where m': "rehashLoop v ?m0 0 = Some m'" "validBins m'"
    "length (filter (\<lambda>b. b \<noteq> BIN_EMPTY) (bins_mem m')) \<le> length (pairs m)"
    "\<forall>j<length (pairs m). has v m' (fst (pairs m ! j)) = Some True"
    by auto
  from rehashLoop_fields[OF m'(1)] m' rs show ?thesis by simp
qed

subsection \<open>The shrink and growth tests on a well-formed map\<close>

lemma capacityOk_nonzero: "capacityOk c \<Longrightarrow> c \<noteq> 0"
proof
  assume "capacityOk c" "c = 0"
  then obtain n where n: "n < 32" "(2::uint32) ^ n = 0" by (auto simp: capacityOk_def)
  then have "unat ((2::uint32) ^ n) = 0" by simp
  with n(1) show False by (simp add: pow2_unat)
qed

lemma load_unat:
  assumes "unat (binsInUse m) = length (pairs m)" "length (pairs m) * 100 < 2 ^ 32"
  shows "unat ((binsInUse m * 100) div binCount m) = length (pairs m) * 100 div unat (binCount m)"
proof -
  have "unat (binsInUse m) * unat (100::uint32) < 2 ^ LENGTH(32)" using assms by simp
  then have "unat (binsInUse m * 100) = unat (binsInUse m) * unat (100::uint32)"
    by (simp only: unat_mult_lem)
  then show ?thesis using assms(1) by (simp add: unat_div)
qed

lemma shrink_room:
  assumes wf: "wellFormed m" and s: "shouldShrink m = Some True"
  shows "capacityOk (drop_bit 1 (binCount m))"
    and "length (pairs m) + 2 < unat (drop_bit 1 (binCount m))"
proof -
  from wf have cap: "capacityOk (binCount m)" and u: "unat (binsInUse m) = length (pairs m)"
    and no: "length (pairs m) * 100 < 2 ^ 32" by (auto simp: wellFormed_def)
  show c': "capacityOk (drop_bit 1 (binCount m))" using cap s by (rule capacityOk_shrink)
  from cap obtain n where n: "5 \<le> n" "n < 32" "binCount m = 2 ^ n" by (auto simp: capacityOk_def)
  from s n have gt: "(32::uint32) < 2 ^ n"
    and le: "(binsInUse m * 100) div binCount m \<le> 30"
    by (auto simp: shouldShrink_def MIN_BINS_def SHRINK_THRESHOLD_def split: if_splits)
  from gt have n6: "5 < n" using n(2) pow2_gt_32 by blast
  have N: "unat (binCount m) = 2 ^ n" using n by (simp add: pow2_unat)
  have half: "unat (drop_bit 1 (binCount m)) = 2 ^ (n - 1)"
    using n n6 pow2_halve[of n] by (simp add: pow2_unat)
  from le have "length (pairs m) * 100 div 2 ^ n \<le> 30"
    using load_unat[OF u no] N by (simp add: word_le_nat_alt)
  then have "length (pairs m) * 100 div 2 ^ n < 31" by simp
  then have lt: "length (pairs m) * 100 < 31 * 2 ^ n"
    using div_less_iff_less_mult[of "2 ^ n" "length (pairs m) * 100" 31] by simp
  have "(2::nat) ^ 6 \<le> 2 ^ n" using n6 by (intro power_increasing) auto
  then have big: "(64::nat) \<le> 2 ^ n" by simp
  have "(2::nat) ^ n = 2 * 2 ^ (n - 1)" using n6 by (cases n) auto
  with lt big have "length (pairs m) + 2 < 2 ^ (n - 1)" by linarith
  then show "length (pairs m) + 2 < unat (drop_bit 1 (binCount m))" by (simp only: half)
qed


text \<open>The table a removal works on: the map itself, or the map after the shrink.\<close>

lemma shrink_phase:
  assumes wf: "wellFormed m"
  shows "\<exists>s m1 bs1. shouldShrink m = Some s
           \<and> (if s then shrink v m else Some m) = Some m1
           \<and> validBins m1 \<and> capacityOk (binCount m1) \<and> bins m1 = Some bs1
           \<and> length bs1 = unat (binCount m1)
           \<and> pairs m1 = pairs m \<and> binsInUse m1 = binsInUse m \<and> hashFunc m1 = hashFunc m
           \<and> binCount m1 = (if s then drop_bit 1 (binCount m) else binCount m)
           \<and> (s \<or> m1 = m)
           \<and> (s \<longrightarrow> 2 \<le> length (filter (\<lambda>b. b = BIN_EMPTY) bs1))
           \<and> (s \<longrightarrow> (\<forall>j<length (pairs m). has v m1 (fst (pairs m ! j)) = Some True))
           \<and> (\<forall>k. has v m k = Some True \<longrightarrow> has v m1 k = Some True)"
proof -
  from wf have valid: "validBins m" and cap: "capacityOk (binCount m)"
    by (auto simp: wellFormed_def)
  from valid obtain bs where bs: "bins m = Some bs" "length bs = unat (binCount m)"
    by (auto elim: validBinsD)
  have ss: "shouldShrink m = Some ((binsInUse m * 100) div binCount m \<le> SHRINK_THRESHOLD
                 \<and> binCount m > MIN_BINS)"
    using capacityOk_nonzero[OF cap] by (simp add: shouldShrink_def)
  show ?thesis
  proof (cases "shouldShrink m = Some True")
    case True
    from shrink_room[OF wf True] have c': "capacityOk (drop_bit 1 (binCount m))"
      and room: "length (pairs m) + 2 < unat (drop_bit 1 (binCount m))" by auto
    have "bins m \<noteq> None" using bs by simp
    moreover have "length (pairs m) < unat (drop_bit 1 (binCount m))" using room by simp
    ultimately obtain m1 where m1: "resize v m (drop_bit 1 (binCount m)) = Some m1"
      "validBins m1" "binCount m1 = drop_bit 1 (binCount m)" "pairs m1 = pairs m"
      "binsInUse m1 = binsInUse m" "hashFunc m1 = hashFunc m"
      "length (filter (\<lambda>b. b \<noteq> BIN_EMPTY) (bins_mem m1)) \<le> length (pairs m)"
      "\<forall>j<length (pairs m). has v m1 (fst (pairs m ! j)) = Some True"
      using resize_correct[OF _ c', of m v] by blast
    from m1(2) obtain bs1 where bs1: "bins m1 = Some bs1" "length bs1 = unat (binCount m1)"
      by (auto elim: validBinsD)
    have two: "2 \<le> length (filter (\<lambda>b. b = BIN_EMPTY) bs1)"
      using empty_count[of bs1] m1(7) bs1 m1(3) room by (simp add: bins_mem_def)
    have keep: "has v m1 k = Some True" if h: "has v m k = Some True" for k
    proof -
      from h obtain b where b: "findBinForKey v m k = Some b" "isBinEmpty m b = Some False"
        by (auto simp: has_True_iff)
      from found_in_use_D[OF bs(1) findBinForKey_stops(1)[OF b(1)] b(2)]
      have "unat (bs ! unat b) < length (pairs m)" "fst (pairs m ! unat (bs ! unat b)) = k"
        by auto
      with m1(8) show ?thesis by auto
    qed
    show ?thesis
      using True m1 bs1 two keep c'
      by (intro exI[of _ True] exI[of _ m1] exI[of _ bs1]) (simp add: shrink_def)
  next
    case False
    with ss have f: "shouldShrink m = Some False" by auto
    with bs valid cap show ?thesis
      by (intro exI[of _ False] exI[of _ m] exI[of _ bs]) simp
  qed
qed

lemma two_keys_wellFormed: "wellFormed (two_keys MapH)"
proof -
  have "validBins (two_keys MapH)" by code_simp
  moreover have "binCount (two_keys MapH) = 32" by code_simp
  moreover have "binsInUse (two_keys MapH) = 2" by code_simp
  moreover have "length (pairs (two_keys MapH)) = 2" by code_simp
  ultimately show ?thesis by (simp add: wellFormed_def capacityOk_32)
qed

lemma sparse64_wellFormed: "wellFormed (sparse64 MapH)"
proof -
  have "validBins (sparse64 MapH)" by code_simp
  moreover have "binCount (sparse64 MapH) = 64" by code_simp
  moreover have "binsInUse (sparse64 MapH) = 2" by code_simp
  moreover have "length (pairs (sparse64 MapH)) = 2" by code_simp
  ultimately show ?thesis by (simp add: wellFormed_def capacityOk_64)
qed


subsection \<open>remove of an absent key (map.h)\<close>

lemma absent_lookup_empty:
  assumes valid: "validBins m" and bs: "bins m = Some bs"
    and absent: "key \<notin> fst ` set (pairs m)"
    and find: "findBinForKey v m key = Some b"
  shows "isBinEmpty m b = Some True"
proof -
  from valid bs have len: "length bs = unat (binCount m)" by (auto elim: validBinsD)
  from findBinForKey_stops[OF find] have stop: "keepProbing m b key = Some False"
    and b: "b < binCount m" by auto
  have e: "isBinEmpty m b = Some (bs ! unat b = BIN_EMPTY)"
    using bs len b by (rule isBinEmpty_valid)
  show ?thesis
  proof (cases "bs ! unat b = BIN_EMPTY")
    case True
    with e show ?thesis by simp
  next
    case False
    with e have "isBinEmpty m b = Some False" by simp
    from found_in_use_D[OF bs stop this]
    have "unat (bs ! unat b) < length (pairs m)" "fst (pairs m ! unat (bs ! unat b)) = key"
      by auto
    then have "key \<in> fst ` set (pairs m)" by (metis image_eqI nth_mem)
    with absent show ?thesis by simp
  qed
qed

text \<open>
  Where the lookup has room, \<open>remove\<close> of \<open>map.h\<close> treats a key that is not in the pair
  store as the claim says: on a well-formed map on which the shrink test holds or which
  has at least two EMPTY bins, the call returns and leaves the pair store, the size and
  \<open>binsInUse\<close> as they were. The shrink check runs first: when it holds the result is
  the map after \<open>shrink\<close>, with half the bins and every stored key found again by its
  lookup; otherwise nothing changes.
\<close>

lemma remove_absent_key_with_free_bins:
  assumes wf: "wellFormed m"
    and absent: "key \<notin> fst ` set (pairs m)"
    and free: "shouldShrink m = Some True
               \<or> 2 \<le> length (filter (\<lambda>b. b = BIN_EMPTY) (bins_mem m))"
  shows "\<exists>m'. remove m key = Some m'
           \<and> pairs m' = pairs m \<and> size_of m' = size_of m \<and> binsInUse m' = binsInUse m
           \<and> has MapH m' key = Some False
           \<and> (if shouldShrink m = Some True
               then shrink MapH m = Some m' \<and> binCount m' = drop_bit 1 (binCount m)
                    \<and> validBins m'
                    \<and> (\<forall>j<length (pairs m). has MapH m' (fst (pairs m ! j)) = Some True)
               else m' = m)"
proof -
  from shrink_phase[OF wf, of MapH] obtain s m1 bs1 where
    s: "shouldShrink m = Some s" and m1: "(if s then shrink MapH m else Some m) = Some m1"
    and v1: "validBins m1" and c1: "capacityOk (binCount m1)" and bs1: "bins m1 = Some bs1"
    and p1: "pairs m1 = pairs m" and u1: "binsInUse m1 = binsInUse m"
    and bc1: "binCount m1 = (if s then drop_bit 1 (binCount m) else binCount m)"
    and same: "s \<or> m1 = m"
    and two: "s \<longrightarrow> 2 \<le> length (filter (\<lambda>b. b = BIN_EMPTY) bs1)"
    and all: "s \<longrightarrow> (\<forall>j<length (pairs m). has MapH m1 (fst (pairs m ! j)) = Some True)"
    by blast
  have "2 \<le> length (filter (\<lambda>b. b = BIN_EMPTY) bs1)"
  proof (cases s)
    case True
    with two show ?thesis by simp
  next
    case False
    with s free have "2 \<le> length (filter (\<lambda>b. b = BIN_EMPTY) (bins_mem m))" by simp
    with False same bs1 show ?thesis by (simp add: bins_mem_def)
  qed
  from findBinForKey_terminates[OF v1 c1 bs1 this, of MapH key]
  obtain b where b: "findBinForKey MapH m1 key = Some b" by blast
  have e: "isBinEmpty m1 b = Some True"
    using absent_lookup_empty[OF v1 bs1 _ b] absent p1 by simp
  have r: "remove m key = Some m1"
    using s m1 b e by (simp add: remove_def)
  have h: "has MapH m1 key = Some False" using b e by (auto simp: has_False_iff)
  show ?thesis
  proof (cases s)
    case True
    with r s m1 p1 u1 bc1 h v1 all show ?thesis
      by (intro exI[of _ m1]) (simp add: size_of_def)
  next
    case False
    with r s same p1 u1 h show ?thesis by (intro exI[of _ m1]) (simp add: size_of_def)
  qed
qed

lemma sparse64_facts:
  "7 \<notin> fst ` set (pairs (sparse64 MapH))
   \<and> 2 \<le> length (filter (\<lambda>b. b = BIN_EMPTY) (bins_mem (sparse64 MapH)))
   \<and> shouldShrink (sparse64 MapH) = Some True
   \<and> binCount (sparse64 MapH) = 64
   \<and> drop_bit 1 (binCount (sparse64 MapH)) = 32
   \<and> pairs (sparse64 MapH) = [(0, 0), (64, 640)]
   \<and> binsInUse (sparse64 MapH) = 2"
  by code_simp

text \<open>
  For instance, a map built with capacity 64 that holds the keys 0 and 64: \<open>remove( 7 )\<close>
  shrinks it to 32 bins, both keys are found afterwards, and nothing else changes.
\<close>

lemma remove_absent_key_with_free_bins_example:
  "wellFormed (sparse64 MapH)
   \<and> binCount (sparse64 MapH) = 64
   \<and> (\<exists>m'. remove (sparse64 MapH) 7 = Some m'
         \<and> pairs m' = [(0, 0), (64, 640)] \<and> binsInUse m' = 2
         \<and> has MapH m' 7 = Some False
         \<and> has MapH m' 0 = Some True \<and> has MapH m' 64 = Some True
         \<and> shrink MapH (sparse64 MapH) = Some m' \<and> binCount m' = 32)"
proof -
  have a: "7 \<notin> fst ` set (pairs (sparse64 MapH))"
    and f: "shouldShrink (sparse64 MapH) = Some True
            \<or> 2 \<le> length (filter (\<lambda>b. b = BIN_EMPTY) (bins_mem (sparse64 MapH)))"
    using sparse64_facts by simp_all
  from remove_absent_key_with_free_bins[OF sparse64_wellFormed a f]
  obtain m' where m': "remove (sparse64 MapH) 7 = Some m'"
    "pairs m' = pairs (sparse64 MapH)" "binsInUse m' = binsInUse (sparse64 MapH)"
    "has MapH m' 7 = Some False"
    "(if shouldShrink (sparse64 MapH) = Some True
      then shrink MapH (sparse64 MapH) = Some m' \<and> binCount m' = drop_bit 1 (binCount (sparse64 MapH))
           \<and> validBins m'
           \<and> (\<forall>j<length (pairs (sparse64 MapH)).
                  has MapH m' (fst (pairs (sparse64 MapH) ! j)) = Some True)
      else m' = sparse64 MapH)"
    by blast
  from m'(5) have found:
    "\<forall>j<length (pairs (sparse64 MapH)). has MapH m' (fst (pairs (sparse64 MapH) ! j)) = Some True"
    using sparse64_facts by simp
  have "has MapH m' 0 = Some True" using found[rule_format, of 0] sparse64_facts by simp
  moreover have "has MapH m' 64 = Some True" using found[rule_format, of 1] sparse64_facts by simp
  ultimately show ?thesis using m' sparse64_facts sparse64_wellFormed by auto
qed

text \<open>
  C9. The claim: in \<open>map.h\<close>, \<open>remove\<close> of a key that is absent from the map leaves the
  pair store, the size and \<open>binsInUse\<close> unchanged (a silent no-op, after the shrink
  check). On a default map holding the 31 keys 1..31 (\<open>put\<close> never grows the table, so
  bins 1..31 are in use and only bin 0 is EMPTY) key 33 is absent and the shrink test is
  false. The lookup of 33 starts at bin 1 and, by the step \<open>i = probe( ++probes )\<close> of
  \<open>map.h\<close>, goes on to 1, 2, ..., 31 and then to index 32, where \<open>isBinEmpty\<close> fails its
  assertion: \<open>remove( 33 )\<close> does not return. With the step of the sibling copy,
  \<open>i = wrap( i + probe( ++probes ) )\<close>, the same lookup ends at the EMPTY bin 0 and
  \<open>has( 33 )\<close> is false.
\<close>

theorem remove_absent_key_runs_past_table:
  "Option.bind (Map_default sample_hash)
     (\<lambda>m0. Option.bind (put_all MapH m0 [1..<32])
        (\<lambda>m. Some (size_of m, binCount m, List.member (map fst (pairs m)) 33, shouldShrink m,
                     findBinForKey MapH m 33,
                     map_option (\<lambda>m'. (pairs m', size_of m', binsInUse m')) (remove m 33))))
   = Some (31, 32, False, Some False, None, None)
   \<and> Option.bind (Map_default sample_hash)
     (\<lambda>m0. Option.bind (put_all Sibling m0 [1..<32])
        (\<lambda>m. Some (size_of m, findBinForKey Sibling m 33, has Sibling m 33)))
   = Some (31, Some 0, Some False)"
  by code_simp

subsection \<open>remove of a key in the pair store\<close>

text \<open>
  For a key that the lookup finds (\<open>has\<close> is true) on a well-formed map, \<open>remove\<close>
  (either version) does what the specification says. With \<open>m1\<close> the table after the
  shrink check and \<open>b\<close> the bin the key resolves to there, holding store index \<open>r\<close>:
  the pair store loses entry \<open>r\<close> and the later entries move down by one,
  \<open>binsInUse\<close> is decremented, every in-use bin of \<open>m1\<close> with an index above \<open>r\<close> is
  decremented, bin \<open>b\<close> becomes EMPTY, \<open>has\<close> is false afterwards and the size is one
  less.
\<close>

lemma remove_found_key:
  assumes wf: "wellFormed m" and present: "has v m key = Some True"
  shows "\<exists>m1 bs1 b m'.
           (if shouldShrink m = Some True then shrink v m = Some m1 else m1 = m)
           \<and> bins m1 = Some bs1 \<and> findBinForKey v m1 key = Some b
           \<and> bs1 ! unat b \<noteq> BIN_EMPTY \<and> unat (bs1 ! unat b) < length (pairs m)
           \<and> fst (pairs m ! unat (bs1 ! unat b)) = key
           \<and> remove_of v m key = Some m'
           \<and> (v = Sibling \<longrightarrow>
                remove_value m key = Some (m', snd (pairs m ! unat (bs1 ! unat b))))
           \<and> pairs m' = take (unat (bs1 ! unat b)) (pairs m)
                         @ drop (Suc (unat (bs1 ! unat b))) (pairs m)
           \<and> binsInUse m' = binsInUse m - 1
           \<and> bins m' = Some ((map (shiftIndex (bs1 ! unat b)) bs1)[unat b := BIN_EMPTY])
           \<and> binCount m' = binCount m1
           \<and> has v m' key = Some False
           \<and> size_of m' = size_of m - 1"
proof -
  from shrink_phase[OF wf, of v] obtain s m1 bs1 where
    s: "shouldShrink m = Some s" and m1: "(if s then shrink v m else Some m) = Some m1"
    and v1: "validBins m1" and bs1: "bins m1 = Some bs1"
    and len1: "length bs1 = unat (binCount m1)"
    and p1: "pairs m1 = pairs m" and u1: "binsInUse m1 = binsInUse m"
    and keep: "\<forall>k. has v m k = Some True \<longrightarrow> has v m1 k = Some True"
    by blast
  from keep present have "has v m1 key = Some True" by simp
  then obtain b where b: "findBinForKey v m1 key = Some b" "isBinEmpty m1 b = Some False"
    by (auto simp: has_True_iff)
  let ?r = "bs1 ! unat b"
  from removeEntry_lookup[OF bs1 len1 b] obtain m' where
    re: "removeEntry m1 b = Some (m', pairs m1 ! unat ?r)"
    and k: "fst (pairs m1 ! unat ?r) = key" and R: "unat ?r < length (pairs m1)"
    and ps': "pairs m' = take (unat ?r) (pairs m1) @ drop (Suc (unat ?r)) (pairs m1)"
    and bs': "bins m' = Some ((map (shiftIndex ?r) bs1)[unat b := BIN_EMPTY])"
    and u': "binsInUse m' = binsInUse m1 - 1" and bc': "binCount m' = binCount m1"
    and f': "findBinForKey v m' key = Some b" and e': "isBinEmpty m' b = Some True"
    by blast
  from isBinEmpty_SomeD[OF bs1 b(2)] have ne: "?r \<noteq> BIN_EMPTY" by simp
  have first: "(if shouldShrink m = Some True then shrink v m = Some m1 else m1 = m)"
    using s m1 by (cases s) auto
  have rem: "remove m key = Some m'" if "v = MapH"
  proof -
    have "(if s then shrink MapH m else Some m) = Some m1"
      "findBinForKey MapH m1 key = Some b"
      using that m1 b(1) by (auto split: if_splits)
    then show ?thesis using s b(2) re by (cases s) (simp_all add: remove_def)
  qed
  have re2: "removeEntry m1 b = Some (m', pairs m ! unat ?r)" using re by (simp only: p1)
  have remv: "remove_value m key = Some (m', snd (pairs m ! unat ?r))" if "v = Sibling"
  proof -
    have m1s: "(if s then shrink Sibling m else Some m) = Some m1"
      and fb: "findBinForKey Sibling m1 key = Some b"
      using that m1 b(1) by (auto split: if_splits)
    show ?thesis
      unfolding remove_value_def by (simp add: s m1s fb b(2) re2)
  qed
  have ro: "remove_of v m key = Some m'"
    using rem remv by (cases v) (simp_all add: remove_of_def)
  have h': "has v m' key = Some False" using f' e' by (auto simp: has_False_iff)
  have "length (pairs m) = Suc (length (pairs m'))" using ps' R p1 by (simp add: min_def)
  then have sz: "size_of m' = size_of m - 1"
    by (simp add: size_of_def da_size_def)
  show ?thesis
    using first bs1 b(1) ne R k ro remv ps' u' bs' bc' h' sz p1 u1
    by (intro exI[of _ m1] exI[of _ bs1] exI[of _ b] exI[of _ m']) simp
qed

lemma two_keys_facts:
  "has MapH (two_keys MapH) 32 = Some True
   \<and> shouldShrink (two_keys MapH) = Some False
   \<and> findBinForKey MapH (two_keys MapH) 32 = Some 1
   \<and> bins (two_keys MapH) = Some ([0, 1] @ replicate 30 BIN_EMPTY)
   \<and> pairs (two_keys MapH) = [(0, 0), (32, 320)]
   \<and> binsInUse (two_keys MapH) = 2
   \<and> size_of (two_keys MapH) = 2"
  by code_simp

lemma remove_found_key_example:
  "wellFormed (two_keys MapH)
   \<and> has MapH (two_keys MapH) 32 = Some True
   \<and> (\<exists>m'. remove (two_keys MapH) 32 = Some m'
         \<and> pairs m' = [(0, 0)] \<and> binsInUse m' = 1
         \<and> bins m' = Some ([0] @ replicate 31 BIN_EMPTY)
         \<and> has MapH m' 32 = Some False \<and> size_of m' = 1)"
proof -
  have p: "has MapH (two_keys MapH) 32 = Some True" using two_keys_facts by simp
  from remove_found_key[OF two_keys_wellFormed p]
  obtain m1 bs1 b m' where
    r: "(if shouldShrink (two_keys MapH) = Some True then shrink MapH (two_keys MapH) = Some m1
         else m1 = two_keys MapH)"
    "bins m1 = Some bs1" "findBinForKey MapH m1 32 = Some b"
    "remove_of MapH (two_keys MapH) 32 = Some m'"
    "pairs m' = take (unat (bs1 ! unat b)) (pairs (two_keys MapH))
                @ drop (Suc (unat (bs1 ! unat b))) (pairs (two_keys MapH))"
    "binsInUse m' = binsInUse (two_keys MapH) - 1"
    "bins m' = Some ((map (shiftIndex (bs1 ! unat b)) bs1)[unat b := BIN_EMPTY])"
    "has MapH m' 32 = Some False"
    "size_of m' = size_of (two_keys MapH) - 1"
    by blast
  from r(1) have m1: "m1 = two_keys MapH" using two_keys_facts by simp
  with r(2,3) have bs1: "bs1 = [0, 1] @ replicate 30 BIN_EMPTY" and b: "b = 1"
    using two_keys_facts by simp_all
  have sh: "(map (shiftIndex (bs1 ! unat b)) bs1)[unat b := BIN_EMPTY] = [0] @ replicate 31 BIN_EMPTY"
    unfolding bs1 b by (simp add: shiftIndex_def BIN_EMPTY_def numeral_eq_Suc)
  have idx: "unat (bs1 ! unat b) = 1" unfolding bs1 b by simp
  have "remove (two_keys MapH) 32 = Some m'" using r(4) by (simp add: remove_of_def)
  moreover have "pairs m' = [(0, 0)]" using r(5) two_keys_facts by (simp add: idx)
  moreover have "binsInUse m' = 1" using r(6) two_keys_facts by simp
  moreover have "bins m' = Some ([0] @ replicate 31 BIN_EMPTY)" using r(7) sh by simp
  moreover have "size_of m' = 1" using r(9) two_keys_facts by simp
  ultimately show ?thesis using two_keys_wellFormed p r(8) by blast
qed

text \<open>
  C4. The claim: for every map and every key present in it, \<open>remove( key )\<close> takes the
  entry out of the pair store, decrements \<open>binsInUse\<close>, corrects the other bins and sets
  the vacated bin to EMPTY; afterwards \<open>has( key )\<close> is false and the size is one less.
  After \<open>put( 0 )\<close>, \<open>put( 32 )\<close> and \<open>remove( 0 )\<close> on a default map, key 32 is still in
  the pair store (size 1), but its bin 1 lies behind the gap that \<open>remove( 0 )\<close> left at
  bin 0, where the lookup of 32 now ends. \<open>remove( 32 )\<close> of \<open>map.h\<close> takes the EMPTY bin
  as a sign that the key is absent and returns with the entry still in the store, the size and
  \<open>binsInUse\<close> still 1; the \<open>remove\<close> of the sibling copy fails its assertion
  \<open>assert( !isBinEmpty( binIndex ) )\<close>.
\<close>

theorem remove_of_stored_key_behind_gap:
  "Option.bind (Map_default sample_hash)
     (\<lambda>m0. Option.bind (put_all MapH m0 [0, 32])
        (\<lambda>m. Option.bind (remove m 0)
           (\<lambda>m1. Some (pairs m1, size_of m1, has MapH m1 32,
                  map_option (\<lambda>m2. (pairs m2, size_of m2, binsInUse m2)) (remove m1 32)))))
   = Some ([(32, 320)], 1, Some False, Some ([(32, 320)], 1, 1))
   \<and> Option.bind (Map_default sample_hash)
     (\<lambda>m0. Option.bind (put_all Sibling m0 [0, 32])
        (\<lambda>m. Option.bind (remove_value m 0)
           (\<lambda>(m1, x). Some (pairs m1, size_of m1, has Sibling m1 32,
                  map_option (\<lambda>(m2, y). (pairs m2, size_of m2, binsInUse m2))
                    (remove_value m1 32)))))
   = Some ([(32, 320)], 1, Some False, None)"
  by code_simp

subsection \<open>operator[] on a present key at the growth threshold\<close>




subsection \<open>put has no growth check\<close>

text \<open>
  C2. The claim: a \<open>put\<close> of an absent key first runs the growth check and doubles the
  bin table when \<open>(binsInUse * 100) / binCount >= 70\<close>. The code of \<open>put\<close> never calls
  \<open>shouldGrow\<close>: on a default map holding the 23 keys 0..22 (load 71 percent) the growth
  test is true, key 23 is absent, and \<open>put\<close> stores it in the same 32 bins.
\<close>

theorem put_runs_no_growth_check:
  "Option.bind (Map_default sample_hash)
     (\<lambda>m0. Option.bind (put_all MapH m0 [0..<23])
        (\<lambda>m. Some (shouldGrow m, has MapH m 23, map_option binCount (put MapH m 23 230),
                     map_option size_of (put MapH m 23 230))))
   = Some (Some True, Some False, Some 32, Some 24)
   \<and> Option.bind (Map_default sample_hash)
     (\<lambda>m0. Option.bind (put_all Sibling m0 [0..<23])
        (\<lambda>m. Some (shouldGrow m, has Sibling m 23, map_option binCount (put Sibling m 23 230),
                     map_option size_of (put Sibling m 23 230))))
   = Some (Some True, Some False, Some 32, Some 24)"
  by code_simp

subsection \<open>remove leaves a gap in a probe chain\<close>

text \<open>
  C3. The claim: after every sequence of operations the bin-table invariant holds, and
  \<open>remove\<close> preserves it for the entries that remain. With the keys 0 and 32 in a
  default map (both hash to bin 0; 32 is placed in the next probed bin) the invariant
  holds; \<open>remove( 0 )\<close> sets bin 0 to EMPTY, and the entry of key 32, still in the pair
  store, is cut off from its key: \<open>has( 32 )\<close> is false, the reading \<open>operator[]\<close> fails
  its assertion, and the invariant is false. Both versions of \<open>remove\<close> do this.
\<close>

theorem remove_leaves_gap:
  "Option.bind (Map_default sample_hash)
     (\<lambda>m0. Option.bind (put_all MapH m0 [0, 32])
        (\<lambda>m. Some (binTableInvariant MapH m,
             Option.bind (remove m 0)
              (\<lambda>m'. Some (pairs m', has MapH m' 32, index_const MapH m' 32,
                            binTableInvariant MapH m')))))
   = Some (True, Some ([(32, 320)], Some False, None, False))
  \<and> Option.bind (Map_default sample_hash)
     (\<lambda>m0. Option.bind (put_all Sibling m0 [0, 32])
        (\<lambda>m. Some (binTableInvariant Sibling m,
              Option.bind (remove_value m 0)
              (\<lambda>(m', x). Some (pairs m', has Sibling m' 32, index_const Sibling m' 32,
                            binTableInvariant Sibling m')))))
   = Some (True, Some ([(32, 320)], Some False, None, False))"
  by code_simp

subsection \<open>put on a full table\<close>

lemma put_all_append:
  "put_all v m (ks @ [k]) = Option.bind (put_all v m ks) (\<lambda>m'. put v m' k (10 * k))"
  by (induction ks arbitrary: m) (simp_all add: bind_assoc cong: Option.bind_cong)

lemma findBinForKey_None:
  assumes "\<And>b. keepProbing m b key \<noteq> Some False"
  shows "findBinForKey v m key = None"
proof (cases "findBinForKey v m key")
  case None
  then show ?thesis .
next
  case (Some b)
  from findBinForKey_stops(1)[OF Some] assms show ?thesis by simp
qed

lemma full32_no_stop: "keepProbing (full32 Sibling) b 32 \<noteq> Some False"
proof (cases "b < 32")
  case False
  have "binCount (full32 Sibling) = 32" by code_simp
  with False have nb: "\<not> b < binCount (full32 Sibling)" by simp
  show ?thesis
  proof
    assume "keepProbing (full32 Sibling) b 32 = Some False"
    from keepProbing_Some_in_range[OF this] nb show False by simp
  qed
next
  case True
  have all: "list_all (\<lambda>j. keepProbing (full32 Sibling) (of_nat j) 32 = Some True) [0..<32]"
    by code_simp
  have "unat b < 32" using True by (simp add: word_less_nat_alt)
  then have "unat b \<in> set [0..<32]" by simp
  with all have "keepProbing (full32 Sibling) (of_nat (unat b)) 32 = Some True"
    unfolding list_all_iff by (rule bspec)
  then show ?thesis by simp
qed

lemma put_33rd_key_Sibling:
  "Option.bind (Map_default sample_hash) (\<lambda>m0. put_all Sibling m0 [0..<33]) = None"
proof -
  have "\<not> Option.is_none (Option.bind (Map_default sample_hash) (\<lambda>m0. put_all Sibling m0 [0..<32]))"
    by code_simp
  then have full: "Option.bind (Map_default sample_hash) (\<lambda>m0. put_all Sibling m0 [0..<32])
                   = Some (full32 Sibling)"
    by (auto simp: full32_def Option.is_none_def)
  have "findBinForKey Sibling (full32 Sibling) 32 = None"
    by (rule findBinForKey_None) (rule full32_no_stop)
  then have stuck: "put Sibling (full32 Sibling) 32 (10 * 32) = None"
    by (simp add: put_def)
  have "[0..<33] = [0..<32] @ [32]" by (simp add: upt_rec numeral_eq_Suc)
  then have "Option.bind (Map_default sample_hash) (\<lambda>m0. put_all Sibling m0 [0..<33])
        = Option.bind (Option.bind (Map_default sample_hash) (\<lambda>m0. put_all Sibling m0 [0..<32]))
            (\<lambda>m'. put Sibling m' 32 (10 * 32))"
    by (simp only: put_all_append bind_assoc)
  also have "\<dots> = None" by (simp only: full Option.bind.simps stuck)
  finally show ?thesis .
qed

text \<open>
  C5. The claim: for every map state \<open>put( k, v )\<close> followed by a read of \<open>k\<close> returns
  \<open>v\<close>, and the size after N distinct-key puts into an empty map is N. Since \<open>put\<close>
  never grows the table, 32 distinct keys fill the 32 bins of a default map, and the
  33rd \<open>put\<close> does not return: in \<open>map.h\<close> the probe index runs to 32 and fails the
  assertion of \<open>isBinEmpty\<close>; in the sibling copy the loop finds every bin in use by
  another key and never ends.
\<close>

theorem put_33_keys_does_not_return:
  "Option.bind (Map_default sample_hash) (\<lambda>m0. map_option size_of (put_all MapH m0 [0..<32]))
     = Some 32
   \<and> Option.bind (Map_default sample_hash) (\<lambda>m0. map_option size_of (put_all MapH m0 [0..<33]))
     = None
   \<and> Option.bind (Map_default sample_hash) (\<lambda>m0. put_all Sibling m0 [0..<33]) = None"
proof -
  have "Option.bind (Map_default sample_hash) (\<lambda>m0. map_option size_of (put_all MapH m0 [0..<32]))
          = Some 32
        \<and> Option.bind (Map_default sample_hash) (\<lambda>m0. map_option size_of (put_all MapH m0 [0..<33]))
          = None"
    by code_simp
  with put_33rd_key_Sibling show ?thesis by simp
qed

subsection \<open>Move\<close>

text \<open>
  C7. After \<open>moved = std::move( original )\<close> the moved-to map is the state the source
  had, so every key resolves as before; the source has size 0, is empty, has zeroed
  counts and a null bin pointer, which the destructor does not release.
\<close>

theorem move_transfers_contents_and_resets_source:
  "fst (Map_move original) = original
   \<and> index_const v (fst (Map_move original)) key = index_const v original key
   \<and> has v (fst (Map_move original)) key = has v original key
   \<and> size_of (snd (Map_move original)) = 0
   \<and> isEmpty (snd (Map_move original))
   \<and> binsInUse (snd (Map_move original)) = 0
   \<and> binCount (snd (Map_move original)) = 0
   \<and> bins (snd (Map_move original)) = None
   \<and> \<not> destructor_releases (snd (Map_move original))"
  by (simp add: Map_move_def size_of_def da_size_def isEmpty_def destructor_releases_def)

subsection \<open>clear\<close>

text \<open>
  C8. For every map whose bin array has \<open>binCount\<close> slots, \<open>clear()\<close> returns, sets every
  bin to EMPTY, empties the pair store (size 0), resets \<open>binsInUse\<close> to zero and leaves
  \<open>binCount\<close> as it was.
\<close>

theorem clear_resets_contents_keeps_capacity:
  assumes "length (bins_mem m) = unat (binCount m)"
  shows "\<exists>m'. clear m = Some m'
           \<and> bins m' = map_option (\<lambda>_. replicate (unat (binCount m)) BIN_EMPTY) (bins m)
           \<and> pairs m' = [] \<and> size_of m' = 0 \<and> isEmpty m'
           \<and> binsInUse m' = 0
           \<and> binCount m' = binCount m"
  using assms by (simp add: clear_def clearBins_result size_of_def da_size_def isEmpty_def)

lemma two_keys_shape:
  "pairs (two_keys MapH) = [(0, 0), (32, 320)]
   \<and> length (bins_mem (two_keys MapH)) = unat (binCount (two_keys MapH))
   \<and> bins (two_keys MapH) = Some ([0, 1] @ replicate 30 BIN_EMPTY)
   \<and> binCount (two_keys MapH) = 32 \<and> binsInUse (two_keys MapH) = 2"
  by code_simp

theorem clear_resets_contents_keeps_capacity_witness:
  "\<exists>m'. clear (two_keys MapH) = Some m'
      \<and> bins m' = Some (replicate 32 BIN_EMPTY)
      \<and> pairs m' = [] \<and> size_of m' = 0 \<and> isEmpty m'
      \<and> binsInUse m' = 0
      \<and> binCount m' = 32"
  using clear_resets_contents_keeps_capacity [of "two_keys MapH"] two_keys_shape
  by simp

end
